theory Spec2Isabelle
  imports Complex_Main "HOL-Library.Word"
begin

unbundle bit_operations_syntax

section \<open>Errors\<close>

text \<open>
  Every error the Go code returns is a constructor; \<open>Panic\<close> stands for a Go run-time
  panic (index out of range, nil dereference, integer division by zero).
  Go's \<open>int\<close> is 64 bits wide; every length, index and count below is far smaller, so
  they are modelled as \<open>nat\<close>, or as \<open>int\<close> where the code can make them negative.
\<close>

datatype error =
    IndexOutOfRange
  | SubstrOutOfRange
  | NumBitsOutOfRange
  | NoDataToEncode
  | UnknownDataMode
  | ModeNotSupported
  | LengthTooLong
  | NonAlphanumericChar
  | ContentTooLong
  | DegreeTooSmall
  | RemainderByZero
  | DivideByZero
  | PaddingBug
  | EmptyModulesBug
  | Panic

section \<open>internal/bitset: the bit buffer\<close>

type_synonym byte = "8 word"

record Bitset =
  numBits :: nat
  bits :: "byte list"

text \<open>\<open>ensureCapacity\<close>: grow the storage so that \<open>n\<close> more bits fit.\<close>

definition ensureCapacity :: "Bitset \<Rightarrow> nat \<Rightarrow> Bitset" where
  "ensureCapacity b n =
     (let total = n + numBits b;
          newNumBytes = total div 8 + (if total mod 8 \<noteq> 0 then 1 else 0)
      in if length (bits b) \<ge> newNumBytes then b
         else b\<lparr>bits := bits b @ replicate (newNumBytes + 2 * length (bits b)) 0\<rparr>)"

text \<open>
  The statement pair that every append repeats:
  \<open>if v { b.bits[b.numBits/8] |= 0x80 >> uint(b.numBits%8) }; b.numBits++\<close>.
  The bit is OR-ed into the storage, so it lands correctly only where the storage
  bit was 0 before. Every caller runs \<open>ensureCapacity\<close> first, which puts the index
  in range (lemma \<open>ensureCapacity_length\<close>).
\<close>

definition appendBit :: "bool \<Rightarrow> Bitset \<Rightarrow> Bitset" where
  "appendBit v b =
     (let k = numBits b div 8;
          bs = (if v then (bits b)[k := (bits b ! k) OR drop_bit (numBits b mod 8) 0x80]
                else bits b)
      in \<lparr>numBits = numBits b + 1, bits = bs\<rparr>)"

definition AppendBools :: "Bitset \<Rightarrow> bool list \<Rightarrow> Bitset" where
  "AppendBools b vs = fold appendBit vs (ensureCapacity b (length vs))"

definition New :: "bool list \<Rightarrow> Bitset" where
  "New vs = AppendBools \<lparr>numBits = 0, bits = []\<rparr> vs"

definition Len :: "Bitset \<Rightarrow> nat" where
  "Len b = numBits b"

text \<open>\<open>AppendNumBools\<close>: \<open>num\<close> is a Go \<open>int\<close>; a negative count runs the loop zero times.\<close>

definition AppendNumBools :: "Bitset \<Rightarrow> int \<Rightarrow> bool \<Rightarrow> Bitset" where
  "AppendNumBools b num v = fold (\<lambda>_ b'. AppendBools b' [v]) (replicate (nat num) ()) b"

text \<open>\<open>At\<close>: an index past \<open>numBits\<close> is an error; past the storage, Go panics.\<close>

definition At :: "Bitset \<Rightarrow> nat \<Rightarrow> error + bool" where
  "At b index =
     (if index \<ge> numBits b then Inl IndexOutOfRange
      else if index div 8 \<ge> length (bits b) then Inl Panic
      else Inr ((bits b ! (index div 8)) AND drop_bit (index mod 8) 0x80 \<noteq> 0))"

text \<open>\<open>ByteAt\<close>: the loop \<open>for i := index; i < index+8 && i < b.numBits; i++\<close>.\<close>

fun ByteAt_loop :: "Bitset \<Rightarrow> nat list \<Rightarrow> byte \<Rightarrow> error + byte" where
  "ByteAt_loop b [] result = Inr result"
| "ByteAt_loop b (i # is) result =
     (let result1 = push_bit 1 result
      in case At b i of
           Inl e \<Rightarrow> Inl e
         | Inr bo \<Rightarrow> ByteAt_loop b is (if bo then result1 OR 1 else result1))"

definition ByteAt :: "Bitset \<Rightarrow> int \<Rightarrow> error + byte" where
  "ByteAt b index =
     (if index < 0 \<or> index \<ge> int (numBits b) then Inl IndexOutOfRange
      else ByteAt_loop b [nat index ..< min (nat index + 8) (numBits b)] 0)"

text \<open>The bit at position \<open>i\<close> of the storage, most significant bit of each byte first.\<close>

definition bitAt :: "Bitset \<Rightarrow> nat \<Rightarrow> bool" where
  "bitAt b i = bit (bits b ! (i div 8)) (7 - i mod 8)"


text \<open>
  The reading of \<open>byte_at\<close> in the specification's words: up to 8 bits from
  position \<open>i\<close>, left-aligned in the byte. It is stated over the bit sequence and is
  used only to compare with \<open>ByteAt\<close>.
\<close>

definition byte_of_bools :: "bool list \<Rightarrow> byte" where
  "byte_of_bools vs = foldl (\<lambda>r v. 2 * r + (if v then 1 else 0)) 0 vs"

definition byte_at_left_aligned :: "bool list \<Rightarrow> nat \<Rightarrow> byte" where
  "byte_at_left_aligned vs i =
     (let avail = take 8 (drop i vs)
      in byte_of_bools (avail @ replicate (8 - length avail) False))"


subsection \<open>Reading a byte\<close>

lemma mask_bit: "k < 8 \<Longrightarrow> ((x::byte) AND drop_bit k 0x80 \<noteq> 0) = bit x (7 - k)"
proof -
  assume k: "k < 8"
  have "k = 0 \<or> k = 1 \<or> k = 2 \<or> k = 3 \<or> k = 4 \<or> k = 5 \<or> k = 6 \<or> k = 7"
    using k by arith
  then have "drop_bit k (0x80::byte) = 2 ^ (7 - k)"
    by (elim disjE) simp_all
  then show ?thesis by (simp add: and_exp_eq_0_iff_not_bit)
qed

lemma bit_shl_or:
  "bit (if v then push_bit 1 (r::byte) OR 1 else push_bit 1 r) j \<longleftrightarrow>
     (if j = 0 then v else j < 8 \<and> bit r (j - 1))"
proof -
  have d: "push_bit 1 r = 2 * r" by simp
  have a: "bit (2 * r) n \<longleftrightarrow> (n \<noteq> 0 \<and> n < 8 \<and> bit r (n - 1))" for n
    by (cases n) (auto simp: bit_0 bit_double_Suc_iff possible_bit_word dest: bit_imp_le_length)
  have b: "bit (1::byte) n \<longleftrightarrow> n = 0" for n by (simp add: bit_1_iff)
  show ?thesis unfolding d by (auto simp add: bit_or_iff a b)
qed

lemma At_in_range:
  "i < numBits b \<Longrightarrow> numBits b \<le> 8 * length (bits b) \<Longrightarrow> At b i = Inr (bitAt b i)"
  by (auto simp: At_def bitAt_def mask_bit)

lemma ByteAt_loop_bits:
  assumes "i + m \<le> numBits b" "numBits b \<le> 8 * length (bits b)" "m \<le> 8"
  shows "\<exists>r'. ByteAt_loop b [i ..< i + m] r = Inr r' \<and>
          (\<forall>j<8. bit r' j \<longleftrightarrow> (if j < m then bitAt b (i + (m - 1 - j)) else bit r (j - m)))"
  using assms
proof (induction m arbitrary: i r)
  case 0
  then show ?case by simp
next
  case (Suc m)
  have At: "At b i = Inr (bitAt b i)" using Suc.prems by (intro At_in_range) auto
  let ?r1 = "if bitAt b i then push_bit 1 r OR 1 else push_bit 1 r"
  from Suc.IH[of "Suc i" ?r1] Suc.prems
  obtain r' where r': "ByteAt_loop b [Suc i ..< Suc i + m] ?r1 = Inr r'"
     and bits: "\<forall>j<8. bit r' j \<longleftrightarrow> (if j < m then bitAt b (Suc i + (m - 1 - j)) else bit ?r1 (j - m))"
    by auto
  have up: "[i ..< i + Suc m] = i # [Suc i ..< Suc i + m]"
    by (simp add: upt_conv_Cons)
  have "ByteAt_loop b [i ..< i + Suc m] r = Inr r'"
    unfolding up using r' At by (cases "bitAt b i") (simp_all add: Let_def del: upt_Suc)
  moreover have "\<forall>j<8. bit r' j \<longleftrightarrow> (if j < Suc m then bitAt b (i + (Suc m - 1 - j)) else bit r (j - Suc m))"
  proof (intro allI impI)
    fix j :: nat assume j: "j < 8"
    show "bit r' j \<longleftrightarrow> (if j < Suc m then bitAt b (i + (Suc m - 1 - j)) else bit r (j - Suc m))"
    proof (cases "j < m")
      case True
      then have "Suc i + (m - 1 - j) = i + (Suc m - 1 - j)" by simp
      with bits j True show ?thesis by simp
    next
      case False
      then have b1: "bit r' j = bit ?r1 (j - m)" using bits j by simp
      show ?thesis using False j unfolding b1 bit_shl_or
        by (auto simp: Suc_diff_le)
    qed
  qed
  ultimately show ?case by blast
qed

text \<open>
  C7 (as amended). For a bit buffer whose storage covers its \<open>numBits\<close> and an index
  \<open>i < numBits\<close>, \<open>ByteAt\<close> succeeds and shifts in the \<open>m = min 8 (numBits - i)\<close>
  bits from position \<open>i\<close>; the result is right-aligned: bit \<open>j\<close> of the byte is the
  buffer's bit \<open>i + m - 1 - j\<close> for \<open>j < m\<close>, and bits \<open>m\<close> to 7 are zero.
\<close>

theorem ByteAt_right_aligned:
  assumes "i < numBits b" and "numBits b \<le> 8 * length (bits b)"
  shows "\<exists>r. ByteAt b (int i) = Inr r \<and>
           (\<forall>j<8. bit r j \<longleftrightarrow>
              (j < min 8 (numBits b - i) \<and>
               At b (i + (min 8 (numBits b - i) - 1 - j)) = Inr True))"
proof -
  let ?m = "min 8 (numBits b - i)"
  have m: "i + ?m \<le> numBits b" "?m \<le> 8" using assms by auto
  from ByteAt_loop_bits[OF m(1) assms(2) m(2), of 0]
  obtain r where r: "ByteAt_loop b [i ..< i + ?m] 0 = Inr r"
    and bits: "\<forall>j<8. bit r j \<longleftrightarrow> (if j < ?m then bitAt b (i + (?m - 1 - j)) else bit (0::byte) (j - ?m))"
    by blast
  have range: "min (i + 8) (numBits b) = i + ?m" using assms by auto
  have "ByteAt b (int i) = Inr r"
    using assms r by (simp add: ByteAt_def range)
  moreover have "\<forall>j<8. bit r j \<longleftrightarrow> (j < ?m \<and> At b (i + (?m - 1 - j)) = Inr True)"
  proof (intro allI impI)
    fix j :: nat assume j: "j < 8"
    show "bit r j \<longleftrightarrow> (j < ?m \<and> At b (i + (?m - 1 - j)) = Inr True)"
    proof (cases "j < ?m")
      case True
      then have "i + (?m - 1 - j) < numBits b" using m(1) by linarith
      then have "At b (i + (?m - 1 - j)) = Inr (bitAt b (i + (?m - 1 - j)))"
        using assms(2) by (rule At_in_range)
      then show ?thesis using bits j True by simp
    next
      case False
      then show ?thesis using bits j by simp
    qed
  qed
  ultimately show ?thesis by blast
qed

lemma New3: "New [True, False, True] = \<lparr>numBits = 3, bits = [0xA0]\<rparr>"
  by (simp add: New_def AppendBools_def ensureCapacity_def appendBit_def Let_def)

text \<open>The hypotheses of C7 hold at the three-bit buffer 101 and index 0.\<close>

theorem ByteAt_right_aligned_witness:
  "0 < numBits (New [True, False, True]) \<and>
   numBits (New [True, False, True]) \<le> 8 * length (bits (New [True, False, True])) \<and>
   (\<exists>r. ByteAt (New [True, False, True]) (int 0) = Inr r \<and>
        (\<forall>j<8. bit r j \<longleftrightarrow>
           (j < min 8 (numBits (New [True, False, True]) - 0) \<and>
            At (New [True, False, True])
               (0 + (min 8 (numBits (New [True, False, True]) - 0) - 1 - j)) = Inr True)))"
proof -
  have h1: "0 < numBits (New [True, False, True])" by (simp add: New3)
  have h2: "numBits (New [True, False, True]) \<le> 8 * length (bits (New [True, False, True]))"
    by (simp add: New3)
  from ByteAt_right_aligned[OF h1 h2] h1 h2 show ?thesis by blast
qed

text \<open>
  C7 as stated fails: on the three-bit buffer 101, \<open>ByteAt\<close> at index 0 returns
  5 (binary 00000101), where the left-aligned byte would be 160 (binary 10100000).
\<close>

theorem ByteAt_left_aligned_counterexample:
  "ByteAt (New [True, False, True]) 0 = Inr 5 \<and>
   byte_at_left_aligned [True, False, True] 0 = 160"
  by code_simp

subsection \<open>The remaining appends and \<open>Substr\<close>\<close>

text \<open>
  The loop body shared by \<open>Append\<close> and \<open>Substr\<close>: read bit \<open>i\<close> of the source with
  \<open>At\<close> and append it to the destination.
\<close>

fun Append_loop :: "Bitset \<Rightarrow> nat list \<Rightarrow> Bitset \<Rightarrow> error + Bitset" where
  "Append_loop other [] b = Inr b"
| "Append_loop other (i # is) b =
     (case At other i of
        Inl e \<Rightarrow> Inl e
      | Inr bo \<Rightarrow> Append_loop other is (appendBit bo b))"

definition Append :: "Bitset \<Rightarrow> Bitset \<Rightarrow> error + Bitset" where
  "Append b other = Append_loop other [0 ..< numBits other] (ensureCapacity b (numBits other))"

definition Substr :: "Bitset \<Rightarrow> nat \<Rightarrow> nat \<Rightarrow> error + Bitset" where
  "Substr b start end =
     (if start > end \<or> end > numBits b then Inl SubstrOutOfRange
      else Append_loop b [start ..< end] (ensureCapacity (New []) (end - start)))"

text \<open>
  \<open>AppendByte\<close> and \<open>AppendUint32\<close>: the capacity is grown before the range check; the
  bits go out from bit \<open>numBits - 1\<close> down to bit 0 of the value.
\<close>

definition AppendByte :: "Bitset \<Rightarrow> byte \<Rightarrow> nat \<Rightarrow> error + Bitset" where
  "AppendByte b v n =
     (let b1 = ensureCapacity b n
      in if n > 8 then Inl NumBitsOutOfRange
         else Inr (fold (\<lambda>i. appendBit (v AND push_bit i 1 \<noteq> 0)) (rev [0 ..< n]) b1))"

definition AppendUint32 :: "Bitset \<Rightarrow> 32 word \<Rightarrow> nat \<Rightarrow> error + Bitset" where
  "AppendUint32 b v n =
     (let b1 = ensureCapacity b n
      in if n > 32 then Inl NumBitsOutOfRange
         else Inr (fold (\<lambda>i. appendBit (v AND push_bit i 1 \<noteq> 0)) (rev [0 ..< n]) b1))"

fun AppendBytes :: "Bitset \<Rightarrow> byte list \<Rightarrow> error + Bitset" where
  "AppendBytes b [] = Inr b"
| "AppendBytes b (d # ds) =
     (case AppendByte b d 8 of
        Inl e \<Rightarrow> Inl e
      | Inr b' \<Rightarrow> AppendBytes b' ds)"

section \<open>encoder.go: segments and the data encoder\<close>

text \<open>\<open>dataMode\<close> is a \<open>uint8\<close> with the values 1, 2, 4, 8; the code compares modes by value.\<close>

datatype dataMode = dataModeNone | dataModeNumeric | dataModeAlphanumeric | dataModeByte

fun dataMode_val :: "dataMode \<Rightarrow> nat" where
  "dataMode_val dataModeNone = 1"
| "dataMode_val dataModeNumeric = 2"
| "dataMode_val dataModeAlphanumeric = 4"
| "dataMode_val dataModeByte = 8"

datatype dataEncoderType = dataEncoderType1To9 | dataEncoderType10To26 | dataEncoderType27To40

record segment =
  seg_dataMode :: dataMode
  seg_data :: "byte list"

text \<open>The mode indicators are pointers in the code (\<open>*bitset.Bitset\<close>): \<open>None\<close> is nil.\<close>

record dataEncoder =
  minVersion :: nat
  maxVersion :: nat
  numericModeIndicator :: "Bitset option"
  alphanumericModeIndicator :: "Bitset option"
  byteModeIndicator :: "Bitset option"
  numNumericCharCountBits :: nat
  numAlphanumericCharCountBits :: nat
  numByteCharCountBits :: nat
  enc_data :: "byte list"
  actual :: "segment list"
  optimised :: "segment list"

definition b0 :: bool where "b0 = False"
definition b1 :: bool where "b1 = True"

fun newDataEncoder :: "dataEncoderType \<Rightarrow> error + dataEncoder" where
  "newDataEncoder dataEncoderType1To9 = Inr
     \<lparr>minVersion = 1, maxVersion = 9,
      numericModeIndicator = Some (New [b0, b0, b0, b1]),
      alphanumericModeIndicator = Some (New [b0, b0, b1, b0]),
      byteModeIndicator = Some (New [b0, b1, b0, b0]),
      numNumericCharCountBits = 10,
      numAlphanumericCharCountBits = 9,
      numByteCharCountBits = 8,
      enc_data = [], actual = [], optimised = []\<rparr>"
| "newDataEncoder dataEncoderType10To26 = Inr
     \<lparr>minVersion = 10, maxVersion = 26,
      numericModeIndicator = Some (New [b0, b0, b0, b1]),
      alphanumericModeIndicator = Some (New [b0, b0, b1, b0]),
      byteModeIndicator = Some (New [b0, b1, b0, b0]),
      numNumericCharCountBits = 12,
      numAlphanumericCharCountBits = 11,
      numByteCharCountBits = 16,
      enc_data = [], actual = [], optimised = []\<rparr>"
| "newDataEncoder dataEncoderType27To40 = Inr
     \<lparr>minVersion = 27, maxVersion = 40,
      numericModeIndicator = Some (New [b0, b0, b0, b1]),
      alphanumericModeIndicator = Some (New [b0, b0, b1, b0]),
      byteModeIndicator = Some (New [b0, b1, b0, b0]),
      numNumericCharCountBits = 14,
      numAlphanumericCharCountBits = 13,
      numByteCharCountBits = 16,
      enc_data = [], actual = [], optimised = []\<rparr>"

fun modeIndicator :: "dataEncoder \<Rightarrow> dataMode \<Rightarrow> error + Bitset option" where
  "modeIndicator d dataModeNumeric = Inr (numericModeIndicator d)"
| "modeIndicator d dataModeAlphanumeric = Inr (alphanumericModeIndicator d)"
| "modeIndicator d dataModeByte = Inr (byteModeIndicator d)"
| "modeIndicator d dataModeNone = Inl UnknownDataMode"

fun charCountBits :: "dataEncoder \<Rightarrow> dataMode \<Rightarrow> error + nat" where
  "charCountBits d dataModeNumeric = Inr (numNumericCharCountBits d)"
| "charCountBits d dataModeAlphanumeric = Inr (numAlphanumericCharCountBits d)"
| "charCountBits d dataModeByte = Inr (numByteCharCountBits d)"
| "charCountBits d dataModeNone = Inl UnknownDataMode"

text \<open>
  \<open>maxLength := (1 << uint8(charCountBits)) - 1\<close> is computed in Go's 64-bit \<open>int\<close>:
  the shift count is the low 8 bits of \<open>charCountBits\<close>, a count of 64 or more gives 0,
  and the subtraction wraps (a count of 63 gives the greatest \<open>int\<close>, a larger one -1).
\<close>

definition maxLength_int64 :: "nat \<Rightarrow> int" where
  "maxLength_int64 c = sint (push_bit (c mod 256) (1 :: 64 word) - 1)"

fun payloadLength :: "dataMode \<Rightarrow> nat \<Rightarrow> nat" where
  "payloadLength dataModeNumeric n = 10 * (n div 3) + (if n mod 3 \<noteq> 0 then 1 + 3 * (n mod 3) else 0)"
| "payloadLength dataModeAlphanumeric n = 11 * (n div 2) + 6 * (n mod 2)"
| "payloadLength dataModeByte n = 8 * n"
| "payloadLength dataModeNone n = 0"

definition encodedLength :: "dataEncoder \<Rightarrow> dataMode \<Rightarrow> nat \<Rightarrow> error + nat" where
  "encodedLength d mode n =
     (case modeIndicator d mode of
        Inl e \<Rightarrow> Inl e
      | Inr mi \<Rightarrow>
         (case charCountBits d mode of
            Inl e \<Rightarrow> Inl e
          | Inr ccb \<Rightarrow>
             (case mi of
                None \<Rightarrow> Inl ModeNotSupported
              | Some ind \<Rightarrow>
                  (let maxLength = maxLength_int64 ccb
                   in if int n > maxLength then Inl LengthTooLong
                      else Inr (Len ind + ccb + payloadLength mode n)))))"

text \<open>
  \<open>classifyDataModes\<close>: one pass over the bytes; the loop state is
  \<open>(start, mode, highestRequiredMode, d.actual)\<close>.
\<close>

definition classOf :: "byte \<Rightarrow> dataMode" where
  "classOf v =
     (if v \<ge> 0x30 \<and> v \<le> 0x39 then dataModeNumeric
      else if v = 0x20 \<or> v = 0x24 \<or> v = 0x25 \<or> v = 0x2a \<or> v = 0x2b \<or> v = 0x2d \<or>
              v = 0x2e \<or> v = 0x2f \<or> v = 0x3a \<or> (v \<ge> 0x41 \<and> v \<le> 0x5a)
      then dataModeAlphanumeric
      else dataModeByte)"

definition classify_step ::
  "byte list \<Rightarrow> nat \<times> byte \<Rightarrow> nat \<times> dataMode \<times> dataMode \<times> segment list
     \<Rightarrow> nat \<times> dataMode \<times> dataMode \<times> segment list" where
  "classify_step dat iv st =
     (case (iv, st) of ((i, v), (start, mode, highest, act)) \<Rightarrow>
        (let newMode = classOf v;
             (start1, act1) =
               (if newMode \<noteq> mode \<and> i > 0
                then (i, act @ [\<lparr>seg_dataMode = mode, seg_data = take (i - start) (drop start dat)\<rparr>])
                else (start, act));
             mode1 = (if newMode \<noteq> mode then newMode else mode);
             highest1 = (if dataMode_val newMode > dataMode_val highest then newMode else highest)
         in (start1, mode1, highest1, act1)))"

definition classifyDataModes :: "dataEncoder \<Rightarrow> dataMode \<times> dataEncoder" where
  "classifyDataModes d =
     (case fold (classify_step (enc_data d)) (zip [0 ..< length (enc_data d)] (enc_data d))
             (0, dataModeNone, dataModeNone, actual d) of
        (start, mode, highest, act) \<Rightarrow>
          (highest,
           d\<lparr>actual := act @ [\<lparr>seg_dataMode = mode, seg_data = drop start (enc_data d)\<rparr>]\<rparr>))"

text \<open>
  \<open>optimiseDataModes\<close>: the inner loop advances \<open>j\<close> while the next run's mode is not
  above the current one and coalescing is strictly shorter; it returns \<open>(j, numChars)\<close>.
\<close>

function optimise_inner :: "dataEncoder \<Rightarrow> dataMode \<Rightarrow> nat \<Rightarrow> nat \<Rightarrow> error + (nat \<times> nat)" where
  "optimise_inner d mode numChars j =
     (if j < length (actual d) then
        (let nextNumChars = length (seg_data (actual d ! j));
             nextMode = seg_dataMode (actual d ! j)
         in if dataMode_val nextMode > dataMode_val mode then Inr (j, numChars)
            else
              (case encodedLength d mode (numChars + nextNumChars) of
                 Inl e \<Rightarrow> Inl e
               | Inr coalescedLength \<Rightarrow>
                  (case encodedLength d mode numChars of
                     Inl e \<Rightarrow> Inl e
                   | Inr seperateLength1 \<Rightarrow>
                      (case encodedLength d nextMode nextNumChars of
                         Inl e \<Rightarrow> Inl e
                       | Inr seperateLength2 \<Rightarrow>
                           if coalescedLength < seperateLength1 + seperateLength2
                           then optimise_inner d mode (numChars + nextNumChars) (j + 1)
                           else Inr (j, numChars)))))
      else Inr (j, numChars))"
  by pat_completeness auto
termination
  by (relation "measure (\<lambda>(d, mode, numChars, j). length (actual d) - j)") auto

declare optimise_inner.simps [simp del]

lemma optimise_inner_ge: "optimise_inner d mode n j = Inr (j', n') \<Longrightarrow> j \<le> j'"
proof (induction d mode n j rule: optimise_inner.induct)
  case (1 d mode numChars j)
  show ?case
  proof (cases "j < length (actual d)")
    case False
    with "1.prems" show ?thesis by (simp add: optimise_inner.simps)
  next
    case True
    define nn where "nn = length (seg_data (actual d ! j))"
    define nm where "nm = seg_dataMode (actual d ! j)"
    show ?thesis
    proof (cases "dataMode_val nm > dataMode_val mode")
      case True
      with "1.prems" \<open>j < length (actual d)\<close> show ?thesis
        by (simp add: optimise_inner.simps[of d mode numChars j] Let_def nm_def)
    next
      case nogt: False
      show ?thesis
      proof (cases "\<exists>c s1 s2. encodedLength d mode (numChars + nn) = Inr c \<and>
                      encodedLength d mode numChars = Inr s1 \<and>
                      encodedLength d nm nn = Inr s2 \<and> c < s1 + s2")
        case True
        then obtain c s1 s2 where e: "encodedLength d mode (numChars + nn) = Inr c"
          "encodedLength d mode numChars = Inr s1" "encodedLength d nm nn = Inr s2" "c < s1 + s2"
          by blast
        have "optimise_inner d mode numChars j = optimise_inner d mode (numChars + nn) (j + 1)"
          using \<open>j < length (actual d)\<close> nogt e
          by (simp add: optimise_inner.simps[of d mode numChars j] Let_def nm_def nn_def)
        with "1.prems" have r: "optimise_inner d mode (numChars + nn) (j + 1) = Inr (j', n')" by simp
        have "j + 1 \<le> j'"
          using "1.IH"[OF \<open>j < length (actual d)\<close> nn_def[symmetric, THEN sym] nm_def[symmetric, THEN sym]] nogt e r
          by (simp add: nm_def nn_def)
        then show ?thesis by simp
      next
        case False
        then have "optimise_inner d mode numChars j = Inr (j, numChars) \<or>
                   (\<exists>e. optimise_inner d mode numChars j = Inl e)"
          using \<open>j < length (actual d)\<close> nogt
          by (auto simp add: optimise_inner.simps[of d mode numChars j] Let_def nm_def nn_def
              split: sum.splits)
        with "1.prems" show ?thesis by auto
      qed
    qed
  qed
qed

function optimise_outer :: "dataEncoder \<Rightarrow> nat \<Rightarrow> error + dataEncoder" where
  "optimise_outer d i =
     (if i < length (actual d) then
        (let mode = seg_dataMode (actual d ! i);
             numChars = length (seg_data (actual d ! i))
         in case optimise_inner d mode numChars (i + 1) of
              Inl e \<Rightarrow> Inl e
            | Inr (j, numChars') \<Rightarrow>
                (let seg = \<lparr>seg_dataMode = mode,
                            seg_data = concat (map seg_data (take (j - i) (drop i (actual d))))\<rparr>
                 in optimise_outer (d\<lparr>optimised := optimised d @ [seg]\<rparr>) j))
      else Inr d)"
  by pat_completeness auto
termination
proof (relation "measure (\<lambda>(d, i). length (actual d) - i)", goal_cases)
  case 1
  show ?case by simp
next
  case (2 d i mode numChars x j numChars')
  from 2(4,5) have "optimise_inner d mode numChars (i + 1) = Inr (j, numChars')" by simp
  then have "i + 1 \<le> j" by (rule optimise_inner_ge)
  with 2(1) show ?case by simp
qed

declare optimise_outer.simps [simp del]

definition optimiseDataModes :: "dataEncoder \<Rightarrow> error + dataEncoder" where
  "optimiseDataModes d = optimise_outer d 0"

text \<open>
  \<open>encodeDataRaw\<close>: mode indicator, character count, then the payload. The numeric and
  the alphanumeric loop step the index \<open>i\<close> by 3 and by 2.
\<close>

definition encodeAlphanumericCharacter :: "byte \<Rightarrow> error + 32 word" where
  "encodeAlphanumericCharacter v =
     (let c = (ucast v :: 32 word)
      in if c \<ge> 0x30 \<and> c \<le> 0x39 then Inr (c - 0x30)
         else if c \<ge> 0x41 \<and> c \<le> 0x5a then Inr (c - 0x41 + 10)
         else if c = 0x20 then Inr 36
         else if c = 0x24 then Inr 37
         else if c = 0x25 then Inr 38
         else if c = 0x2a then Inr 39
         else if c = 0x2b then Inr 40
         else if c = 0x2d then Inr 41
         else if c = 0x2e then Inr 42
         else if c = 0x2f then Inr 43
         else if c = 0x3a then Inr 44
         else Inl NonAlphanumericChar)"

function encodeNumeric :: "byte list \<Rightarrow> nat \<Rightarrow> Bitset \<Rightarrow> error + Bitset" where
  "encodeNumeric dat i encoded =
     (if i < length dat then
        (let charsRemaining = length dat - i;
             grp = take (min charsRemaining 3) (drop i dat);
             val = fold (\<lambda>c v. v * 10 + ucast (c - 0x30)) grp (0 :: 32 word);
             bitsUsed = 1 + 3 * length grp
         in case AppendUint32 encoded val bitsUsed of
              Inl e \<Rightarrow> Inl e
            | Inr enc \<Rightarrow> encodeNumeric dat (i + 3) enc)
      else Inr encoded)"
  by pat_completeness auto
termination
  by (relation "measure (\<lambda>(dat, i, encoded). length dat - i)") auto

declare encodeNumeric.simps [simp del]

fun alphanumericValue :: "byte list \<Rightarrow> 32 word \<Rightarrow> error + 32 word" where
  "alphanumericValue [] val = Inr val"
| "alphanumericValue (c # cs) val =
     (case encodeAlphanumericCharacter c of
        Inl e \<Rightarrow> Inl e
      | Inr v \<Rightarrow> alphanumericValue cs (val * 45 + v))"

function encodeAlphanumeric :: "byte list \<Rightarrow> nat \<Rightarrow> Bitset \<Rightarrow> error + Bitset" where
  "encodeAlphanumeric dat i encoded =
     (if i < length dat then
        (let charsRemaining = length dat - i
         in case alphanumericValue (take (min charsRemaining 2) (drop i dat)) 0 of
              Inl e \<Rightarrow> Inl e
            | Inr val \<Rightarrow>
               (let bitsUsed = (if charsRemaining > 1 then 11 else 6)
                in case AppendUint32 encoded val bitsUsed of
                     Inl e \<Rightarrow> Inl e
                   | Inr enc \<Rightarrow> encodeAlphanumeric dat (i + 2) enc))
      else Inr encoded)"
  by pat_completeness auto
termination
  by (relation "measure (\<lambda>(dat, i, encoded). length dat - i)") auto

declare encodeAlphanumeric.simps [simp del]

definition encodeDataRaw :: "dataEncoder \<Rightarrow> byte list \<Rightarrow> dataMode \<Rightarrow> Bitset \<Rightarrow> error + Bitset" where
  "encodeDataRaw d dat mode encoded =
     (case modeIndicator d mode of
        Inl e \<Rightarrow> Inl e
      | Inr mi \<Rightarrow>
         (case charCountBits d mode of
            Inl e \<Rightarrow> Inl e
          | Inr ccb \<Rightarrow>
             (case mi of
                None \<Rightarrow> Inl Panic
              | Some ind \<Rightarrow>
                 (case Append encoded ind of
                    Inl e \<Rightarrow> Inl e
                  | Inr enc1 \<Rightarrow>
                     (case AppendUint32 enc1 (of_nat (length dat)) ccb of
                        Inl e \<Rightarrow> Inl e
                      | Inr enc2 \<Rightarrow>
                         (case mode of
                            dataModeNumeric \<Rightarrow> encodeNumeric dat 0 enc2
                          | dataModeAlphanumeric \<Rightarrow> encodeAlphanumeric dat 0 enc2
                          | dataModeByte \<Rightarrow> AppendBytes enc2 dat
                          | dataModeNone \<Rightarrow> Inr enc2))))))"

text \<open>The loop that adds up \<open>encodedLength\<close> over \<open>d.optimised\<close>.\<close>

fun sumEncodedLength :: "dataEncoder \<Rightarrow> segment list \<Rightarrow> nat \<Rightarrow> error + nat" where
  "sumEncodedLength d [] optimizedLength = Inr optimizedLength"
| "sumEncodedLength d (s # ss) optimizedLength =
     (case encodedLength d (seg_dataMode s) (length (seg_data s)) of
        Inl e \<Rightarrow> Inl e
      | Inr len \<Rightarrow> sumEncodedLength d ss (optimizedLength + len))"

fun encodeSegments :: "dataEncoder \<Rightarrow> segment list \<Rightarrow> Bitset \<Rightarrow> error + Bitset" where
  "encodeSegments d [] encoded = Inr encoded"
| "encodeSegments d (s # ss) encoded =
     (case encodeDataRaw d (seg_data s) (seg_dataMode s) encoded of
        Inl e \<Rightarrow> Inl e
      | Inr enc \<Rightarrow> encodeSegments d ss enc)"

text \<open>
  \<open>encode\<close> in two parts: \<open>encode_plan\<close> is the method up to and including the
  single-segment check (the segment plan left in \<open>d.optimised\<close>), \<open>encode\<close> then emits
  the bits. The encoder is mutated in place, so it is returned with the bits.
\<close>

definition encode_plan :: "dataEncoder \<Rightarrow> byte list \<Rightarrow> error + dataEncoder" where
  "encode_plan d0 dat =
     (let d = d0\<lparr>enc_data := dat, actual := [], optimised := []\<rparr>
      in if length dat = 0 then Inl NoDataToEncode
         else
           (case classifyDataModes d of
              (highestRequiredMode, d1) \<Rightarrow>
                (case optimiseDataModes d1 of
                   Inl e \<Rightarrow> Inl e
                 | Inr d2 \<Rightarrow>
                    (case sumEncodedLength d2 (optimised d2) 0 of
                       Inl e \<Rightarrow> Inl e
                     | Inr optimizedLength \<Rightarrow>
                        (case encodedLength d2 highestRequiredMode (length (enc_data d2)) of
                           Inl e \<Rightarrow> Inl e
                         | Inr singleByteSegmentLength \<Rightarrow>
                             Inr (if singleByteSegmentLength \<le> optimizedLength
                                  then d2\<lparr>optimised :=
                                         [\<lparr>seg_dataMode = highestRequiredMode,
                                           seg_data = enc_data d2\<rparr>]\<rparr>
                                  else d2))))))"

definition encode :: "dataEncoder \<Rightarrow> byte list \<Rightarrow> error + (Bitset \<times> dataEncoder)" where
  "encode d dat =
     (case encode_plan d dat of
        Inl e \<Rightarrow> Inl e
      | Inr d3 \<Rightarrow>
         (case encodeSegments d3 (optimised d3) (New []) of
            Inl e \<Rightarrow> Inl e
          | Inr encoded \<Rightarrow> Inr (encoded, d3)))"

subsection \<open>The segment plan\<close>

lemma classifyDataModes_enc_data: "classifyDataModes d = (h, d1) \<Longrightarrow> enc_data d1 = enc_data d"
  by (auto simp: classifyDataModes_def split: prod.splits)

lemma optimise_outer_enc_data: "optimise_outer d i = Inr d' \<Longrightarrow> enc_data d' = enc_data d"
proof (induction d i rule: optimise_outer.induct)
  case (1 d i)
  show ?case
  proof (cases "i < length (actual d)")
    case False
    with "1.prems" show ?thesis by (simp add: optimise_outer.simps)
  next
    case True
    let ?mode = "seg_dataMode (actual d ! i)"
    let ?numChars = "length (seg_data (actual d ! i))"
    from "1.prems" True obtain j n' where
      inner: "optimise_inner d ?mode ?numChars (i + 1) = Inr (j, n')"
      by (auto simp: optimise_outer.simps[of d i] Let_def split: sum.splits)
    let ?seg = "\<lparr>seg_dataMode = ?mode,
        seg_data = concat (map seg_data (take (j - i) (drop i (actual d))))\<rparr>"
    have step: "optimise_outer d i = optimise_outer (d\<lparr>optimised := optimised d @ [?seg]\<rparr>) j"
      using True inner by (simp add: optimise_outer.simps[of d i] Let_def)
    have "enc_data d' = enc_data (d\<lparr>optimised := optimised d @ [?seg]\<rparr>)"
      using "1.IH"[OF True refl refl inner refl refl] "1.prems" step by simp
    then show ?thesis by simp
  qed
qed

text \<open>
  The specification's encoded-length formula for a segment of class \<open>C\<close> with \<open>n\<close>
  characters in a version group: a 4-bit mode indicator, the character count
  (10/9/8, 12/11/16 or 14/13/16 bits for Numeric/Alphanumeric/Byte), and the payload.
\<close>

fun spec_charCountBits :: "dataEncoderType \<Rightarrow> dataMode \<Rightarrow> nat" where
  "spec_charCountBits dataEncoderType1To9 dataModeNumeric = 10"
| "spec_charCountBits dataEncoderType1To9 dataModeAlphanumeric = 9"
| "spec_charCountBits dataEncoderType1To9 dataModeByte = 8"
| "spec_charCountBits dataEncoderType10To26 dataModeNumeric = 12"
| "spec_charCountBits dataEncoderType10To26 dataModeAlphanumeric = 11"
| "spec_charCountBits dataEncoderType10To26 dataModeByte = 16"
| "spec_charCountBits dataEncoderType27To40 dataModeNumeric = 14"
| "spec_charCountBits dataEncoderType27To40 dataModeAlphanumeric = 13"
| "spec_charCountBits dataEncoderType27To40 dataModeByte = 16"
| "spec_charCountBits t dataModeNone = 0"

fun spec_payloadBits :: "dataMode \<Rightarrow> nat \<Rightarrow> nat" where
  "spec_payloadBits dataModeNumeric n =
     10 * (n div 3) + (if n mod 3 = 0 then 0 else if n mod 3 = 1 then 4 else 7)"
| "spec_payloadBits dataModeAlphanumeric n = 11 * (n div 2) + (if n mod 2 = 0 then 0 else 6)"
| "spec_payloadBits dataModeByte n = 8 * n"
| "spec_payloadBits dataModeNone n = 0"

definition spec_segmentBits :: "dataEncoderType \<Rightarrow> dataMode \<Rightarrow> nat \<Rightarrow> nat" where
  "spec_segmentBits t c n = 4 + spec_charCountBits t c + spec_payloadBits c n"

definition spec_planBits :: "dataEncoderType \<Rightarrow> segment list \<Rightarrow> nat" where
  "spec_planBits t plan =
     sum_list (map (\<lambda>s. spec_segmentBits t (seg_dataMode s) (length (seg_data s))) plan)"

text \<open>
  The highest class that the input requires, Numeric < Alphanumeric < Byte: Byte when
  some byte is outside the alphanumeric set, else Alphanumeric when some byte is not a
  digit, else Numeric.
\<close>

definition highestClass :: "byte list \<Rightarrow> dataMode" where
  "highestClass dat =
     (if list_ex (\<lambda>v. classOf v = dataModeByte) dat then dataModeByte
      else if list_ex (\<lambda>v. classOf v = dataModeAlphanumeric) dat then dataModeAlphanumeric
      else if dat \<noteq> [] then dataModeNumeric
      else dataModeNone)"

subsection \<open>The highest required mode\<close>

lemma classOf_cases:
  "classOf v = dataModeNumeric \<or> classOf v = dataModeAlphanumeric \<or> classOf v = dataModeByte"
  unfolding classOf_def by presburger

lemma classify_fold_highest:
  "fst (snd (snd (fold (classify_step D) ps (s, m, h, a)))) =
     (if list_ex (\<lambda>p. classOf (snd p) = dataModeByte) ps \<or> h = dataModeByte then dataModeByte
      else if list_ex (\<lambda>p. classOf (snd p) = dataModeAlphanumeric) ps \<or> h = dataModeAlphanumeric
           then dataModeAlphanumeric
      else if ps \<noteq> [] \<or> h = dataModeNumeric then dataModeNumeric
      else dataModeNone)"
proof (induction ps arbitrary: s m h a)
  case Nil
  then show ?case by (cases h) auto
next
  case (Cons p ps)
  obtain i v where p: "p = (i, v)" by (cases p)
  obtain s1 m1 h1 a1 where st: "classify_step D (i, v) (s, m, h, a) = (s1, m1, h1, a1)"
    by (cases "classify_step D (i, v) (s, m, h, a)") auto
  have h1: "h1 = (if dataMode_val (classOf v) > dataMode_val h then classOf v else h)"
    using st by (auto simp: classify_step_def Let_def split: if_splits prod.splits)
  show ?case
    using classOf_cases[of v]
    unfolding p fold_Cons comp_apply st Cons.IH h1
    by (cases h) auto
qed

lemma list_ex_zip_snd:
  "length is = length xs \<Longrightarrow> list_ex (\<lambda>p. P (snd p)) (zip is xs) = list_ex P xs"
  by (induction "is" xs rule: list_induct2) auto

lemma classifyDataModes_highest:
  assumes "classifyDataModes d = (h, d1)" "enc_data d \<noteq> []"
  shows "h = highestClass (enc_data d)"
proof -
  let ?ps = "zip [0 ..< length (enc_data d)] (enc_data d)"
  obtain s m h' a where f: "fold (classify_step (enc_data d)) ?ps (0, dataModeNone, dataModeNone, actual d) = (s, m, h', a)"
    by (cases "fold (classify_step (enc_data d)) ?ps (0, dataModeNone, dataModeNone, actual d)") auto
  have "h = h'" using assms(1) f by (simp add: classifyDataModes_def)
  moreover have "h' = fst (snd (snd (fold (classify_step (enc_data d)) ?ps (0, dataModeNone, dataModeNone, actual d))))"
    using f by simp
  moreover have ne: "?ps \<noteq> []" using assms(2) by (cases "enc_data d") (auto simp: upt_conv_Cons)
  moreover have "list_ex (\<lambda>p. classOf (snd p) = c) ?ps = list_ex (\<lambda>v. classOf v = c) (enc_data d)" for c
    by (rule list_ex_zip_snd) simp
  ultimately show ?thesis
    unfolding classify_fold_highest highestClass_def
    using assms(2) ne by simp
qed

subsection \<open>The encoder's settings and the encoded length\<close>

definition same_settings :: "dataEncoder \<Rightarrow> dataEncoder \<Rightarrow> bool" where
  "same_settings d d' \<longleftrightarrow>
     numericModeIndicator d' = numericModeIndicator d \<and>
     alphanumericModeIndicator d' = alphanumericModeIndicator d \<and>
     byteModeIndicator d' = byteModeIndicator d \<and>
     numNumericCharCountBits d' = numNumericCharCountBits d \<and>
     numAlphanumericCharCountBits d' = numAlphanumericCharCountBits d \<and>
     numByteCharCountBits d' = numByteCharCountBits d"

lemma same_settings_refl: "same_settings d d"
  by (simp add: same_settings_def)

lemma same_settings_trans: "same_settings a b \<Longrightarrow> same_settings b c \<Longrightarrow> same_settings a c"
  by (simp add: same_settings_def)

lemma same_settings_encodedLength:
  "same_settings d d' \<Longrightarrow> encodedLength d' mode n = encodedLength d mode n"
  by (cases mode) (simp_all add: same_settings_def encodedLength_def)

lemma classifyDataModes_settings: "classifyDataModes d = (h, d1) \<Longrightarrow> same_settings d d1"
  by (auto simp: classifyDataModes_def same_settings_def split: prod.splits)

lemma optimise_outer_settings: "optimise_outer d i = Inr d' \<Longrightarrow> same_settings d d'"
proof (induction d i rule: optimise_outer.induct)
  case (1 d i)
  show ?case
  proof (cases "i < length (actual d)")
    case False
    with "1.prems" show ?thesis by (simp add: optimise_outer.simps same_settings_refl)
  next
    case True
    let ?mode = "seg_dataMode (actual d ! i)"
    let ?numChars = "length (seg_data (actual d ! i))"
    from "1.prems" True obtain j n' where
      inner: "optimise_inner d ?mode ?numChars (i + 1) = Inr (j, n')"
      by (auto simp: optimise_outer.simps[of d i] Let_def split: sum.splits)
    let ?seg = "\<lparr>seg_dataMode = ?mode,
        seg_data = concat (map seg_data (take (j - i) (drop i (actual d))))\<rparr>"
    have step: "optimise_outer d i = optimise_outer (d\<lparr>optimised := optimised d @ [?seg]\<rparr>) j"
      using True inner by (simp add: optimise_outer.simps[of d i] Let_def)
    have "same_settings (d\<lparr>optimised := optimised d @ [?seg]\<rparr>) d'"
      using "1.IH"[OF True refl refl inner refl refl] "1.prems" step by simp
    then show ?thesis by (simp add: same_settings_def)
  qed
qed

lemma Len_New4: "Len (New [a, b, c, d]) = 4"
  by (simp add: Len_def New_def AppendBools_def ensureCapacity_def appendBit_def Let_def)

lemma maxLength_int64_small: "c < 63 \<Longrightarrow> maxLength_int64 c = 2 ^ c - 1"
proof -
  assume c: "c < 63"
  have w: "push_bit c (1 :: 64 word) - 1 = mask c"
    by (simp add: mask_eq_exp_minus_1)
  have u0: "uint (mask c :: 64 word) = (mask c :: int)"
    using c by (simp add: uint_mask_eq min_def)
  have u: "uint (mask c :: 64 word) = 2 ^ c - 1"
    unfolding u0 by (simp add: mask_eq_exp_minus_1)
  have lt: "(2::int) ^ c < 2 ^ 63" using c by (intro power_strict_increasing) auto
  have ge: "(1::int) \<le> 2 ^ c" by simp
  have p: "(0::int) < 2 ^ 63" by simp
  have "sint (mask c :: 64 word) = signed_take_bit 63 ((2::int) ^ c - 1)"
    by (simp only: sint_uint u) simp
  also have "\<dots> = 2 ^ c - 1"
    using lt ge p by (intro signed_take_bit_int_eq_self) linarith+
  finally have fin: "sint (mask c :: 64 word) = 2 ^ c - 1" .
  have cm: "c mod 256 = c" using c by simp
  show ?thesis unfolding maxLength_int64_def cm w by (rule fin)
qed

lemma encodedLength_newDataEncoder:
  assumes "newDataEncoder t = Inr d0" "same_settings d0 d" "mode \<noteq> dataModeNone"
  shows "encodedLength d mode n =
           (if n > 2 ^ spec_charCountBits t mode - 1 then Inl LengthTooLong
            else Inr (spec_segmentBits t mode n))"
proof -
  have e: "encodedLength d mode n = encodedLength d0 mode n"
    by (rule same_settings_encodedLength[OF assms(2)])
  have m3: "n mod 3 = 0 \<or> n mod 3 = 1 \<or> n mod 3 = 2" by arith
  have m2: "n mod 2 = 0 \<or> n mod 2 = 1" by arith
  show ?thesis
    unfolding e using assms(1,3) m3 m2
    by (cases t; cases mode)
       (auto simp: encodedLength_def Len_New4 maxLength_int64_small spec_segmentBits_def Let_def
             of_nat_diff)
qed

lemma sumEncodedLength_spec:
  assumes "newDataEncoder t = Inr d0" "same_settings d0 d"
    and "sumEncodedLength d plan n0 = Inr tot"
  shows "tot = n0 + spec_planBits t plan"
  using assms(3)
proof (induction plan arbitrary: n0)
  case Nil
  then show ?case by (simp add: spec_planBits_def)
next
  case (Cons s ss)
  from Cons.prems obtain len where
    l: "encodedLength d (seg_dataMode s) (length (seg_data s)) = Inr len"
    and r: "sumEncodedLength d ss (n0 + len) = Inr tot"
    by (auto split: sum.splits)
  have ne: "seg_dataMode s \<noteq> dataModeNone"
    using l by (auto simp: encodedLength_def)
  have "len = spec_segmentBits t (seg_dataMode s) (length (seg_data s))"
    using l unfolding encodedLength_newDataEncoder[OF assms(1,2) ne]
    by (simp split: if_splits)
  with Cons.IH[OF r] show ?case by (simp add: spec_planBits_def)
qed

text \<open>
  C6. For an encoder made by \<open>newDataEncoder\<close>, whenever the planning part of
  \<open>encode\<close> succeeds on an input, the plan it leaves is decided as the claim says: with
  the coalesced plan that \<open>optimiseDataModes\<close> builds from the classified runs, the
  plan left is the single segment of class \<open>highestRequiredMode\<close> (the highest class
  among the input's bytes) holding the whole input whenever the encoded length of that
  single segment is less than or equal to the sum of the encoded lengths of the
  segments of the coalesced plan, and the coalesced plan otherwise. Encoded lengths
  are those of the specification's formula: 4 bits of mode indicator, the character
  count of the version group, and the payload.
\<close>

theorem encode_single_segment_fallback:
  assumes "newDataEncoder t = Inr d" and "encode_plan d dat = Inr d'"
  shows "\<exists>d1 d2.
           classifyDataModes (d\<lparr>enc_data := dat, actual := [], optimised := []\<rparr>)
             = (highestClass dat, d1) \<and>
           optimiseDataModes d1 = Inr d2 \<and>
           optimised d' =
             (if spec_segmentBits t (highestClass dat) (length dat) \<le> spec_planBits t (optimised d2)
              then [\<lparr>seg_dataMode = highestClass dat, seg_data = dat\<rparr>]
              else optimised d2)"
proof -
  let ?d = "d\<lparr>enc_data := dat, actual := [], optimised := []\<rparr>"
  have ne: "dat \<noteq> []" using assms(2) by (auto simp: encode_plan_def Let_def split: if_splits)
  obtain highest d1 where c: "classifyDataModes ?d = (highest, d1)" by (cases "classifyDataModes ?d")
  from assms c obtain d2 where o: "optimiseDataModes d1 = Inr d2"
    by (auto simp: encode_plan_def Let_def split: if_splits sum.splits)
  from assms c o obtain tot where tt: "sumEncodedLength d2 (optimised d2) 0 = Inr tot"
    by (auto simp: encode_plan_def Let_def split: if_splits sum.splits)
  from assms c o tt obtain single where s: "encodedLength d2 highest (length (enc_data d2)) = Inr single"
    by (auto simp: encode_plan_def Let_def split: if_splits sum.splits)
  have e: "enc_data d2 = dat"
    using classifyDataModes_enc_data[OF c] optimise_outer_enc_data[OF o[unfolded optimiseDataModes_def]]
    by simp
  have h: "highest = highestClass dat"
    using classifyDataModes_highest[OF c] ne by simp
  have "same_settings d ?d" by (simp add: same_settings_def)
  then have ss: "same_settings d d2"
    using classifyDataModes_settings[OF c] optimise_outer_settings[OF o[unfolded optimiseDataModes_def]]
    by (blast intro: same_settings_trans)
  have tot: "tot = spec_planBits t (optimised d2)"
    using sumEncodedLength_spec[OF assms(1) ss tt] by simp
  have s': "encodedLength d2 (highestClass dat) (length dat) = Inr single"
    using s e h by simp
  then have hn: "highestClass dat \<noteq> dataModeNone" by (auto simp: encodedLength_def)
  have single: "single = spec_segmentBits t (highestClass dat) (length dat)"
    using s' by (simp add: encodedLength_newDataEncoder[OF assms(1) ss hn] split: if_splits)
  have "optimised d' =
          (if single \<le> tot then [\<lparr>seg_dataMode = highest, seg_data = dat\<rparr>] else optimised d2)"
    using assms c o tt s e
    by (auto simp: encode_plan_def Let_def split: if_splits)
  with c o h tot single show ?thesis by auto
qed

text \<open>
  The hypotheses of C6 hold for the version 1 to 9 encoder on the input "1a": the
  coalesced plan is a numeric and a byte segment of 38 bits together, the single byte
  segment takes 28 bits and replaces it.
\<close>

theorem encode_single_segment_fallback_witness:
  "\<exists>d d'. newDataEncoder dataEncoderType1To9 = Inr d \<and> encode_plan d [0x31, 0x61] = Inr d' \<and>
     (\<exists>d1 d2.
           classifyDataModes (d\<lparr>enc_data := [0x31, 0x61], actual := [], optimised := []\<rparr>)
             = (highestClass [0x31, 0x61], d1) \<and>
           optimiseDataModes d1 = Inr d2 \<and>
           optimised d' =
             (if spec_segmentBits dataEncoderType1To9 (highestClass [0x31, 0x61]) (length [0x31, 0x61 :: byte])
                   \<le> spec_planBits dataEncoderType1To9 (optimised d2)
              then [\<lparr>seg_dataMode = highestClass [0x31, 0x61], seg_data = [0x31, 0x61]\<rparr>]
              else optimised d2))"
proof -
  obtain d where d: "newDataEncoder dataEncoderType1To9 = Inr d" by simp
  have "\<not> isl (encode_plan (projr (newDataEncoder dataEncoderType1To9)) [0x31, 0x61])"
    by code_simp
  then obtain d' where h: "encode_plan d [0x31, 0x61] = Inr d'"
    using d by (cases "encode_plan d [0x31, 0x61]") auto
  from encode_single_segment_fallback[OF d h] d h show ?thesis by blast
qed

text \<open>
  Both outcomes occur. On "1a" the single byte segment (28 bits) replaces the
  coalesced plan (38 bits); on twenty digits followed by "a" the coalesced plan of a
  numeric and a byte segment (101 bits) is kept, the single byte segment taking 180.
\<close>

lemma encode_plan_1a:
  "map_sum id optimised (encode_plan (projr (newDataEncoder dataEncoderType1To9)) [0x31, 0x61])
     = Inr [\<lparr>seg_dataMode = dataModeByte, seg_data = [0x31, 0x61]\<rparr>] \<and>
   spec_segmentBits dataEncoderType1To9 dataModeByte 2 = 28 \<and>
   spec_segmentBits dataEncoderType1To9 dataModeNumeric 1 +
   spec_segmentBits dataEncoderType1To9 dataModeByte 1 = 38"
  by code_simp

lemma encode_plan_digits_a:
  "map_sum id optimised
     (encode_plan (projr (newDataEncoder dataEncoderType1To9)) (replicate 20 0x30 @ [0x61]))
     = Inr [\<lparr>seg_dataMode = dataModeNumeric, seg_data = replicate 20 0x30\<rparr>,
            \<lparr>seg_dataMode = dataModeByte, seg_data = [0x61]\<rparr>] \<and>
   spec_segmentBits dataEncoderType1To9 dataModeByte 21 = 180 \<and>
   spec_segmentBits dataEncoderType1To9 dataModeNumeric 20 +
   spec_segmentBits dataEncoderType1To9 dataModeByte 1 = 101"
  by code_simp

text \<open>The first scenario of the specification: "12345" encodes to 31 bits.\<close>

lemma encode_scenario_12345: "map_sum id (Len \<circ> fst) (encode (projr (newDataEncoder dataEncoderType1To9)) [0x31, 0x32, 0x33, 0x34, 0x35])
   = Inr 31"
  by code_simp

section \<open>The symbol grid and the penalty rules\<close>

text \<open>
  \<open>module\<close> and \<open>isUsed\<close> are indexed \<open>[y][x]\<close>; \<open>size_sym\<close> is the field \<open>size\<close>
  (symbol and both quiet zones).
\<close>

record symbol =
  module :: "bool list list"
  isUsed :: "bool list list"
  size_sym :: nat
  symbolSize :: nat
  quietZoneSize :: nat

definition newSymbol :: "nat \<Rightarrow> nat \<Rightarrow> symbol" where
  "newSymbol sz quietZone =
     \<lparr>module = replicate (sz + 2 * quietZone) (replicate (sz + 2 * quietZone) False),
      isUsed = replicate (sz + 2 * quietZone) (replicate (sz + 2 * quietZone) False),
      size_sym = sz + 2 * quietZone,
      symbolSize = sz,
      quietZoneSize = quietZone\<rparr>"

text \<open>A read of \<open>grid[y][x]\<close>: Go panics when either index is out of range.\<close>

definition index2 :: "bool list list \<Rightarrow> nat \<Rightarrow> nat \<Rightarrow> error + bool" where
  "index2 grid y x =
     (if y < length grid \<and> x < length (grid ! y) then Inr (grid ! y ! x) else Inl Panic)"

definition get :: "symbol \<Rightarrow> nat \<Rightarrow> nat \<Rightarrow> error + bool" where
  "get m x y = index2 (module m) (y + quietZoneSize m) (x + quietZoneSize m)"

definition empty :: "symbol \<Rightarrow> nat \<Rightarrow> nat \<Rightarrow> error + bool" where
  "empty m x y = map_sum id Not (index2 (isUsed m) (y + quietZoneSize m) (x + quietZoneSize m))"

definition set_module :: "symbol \<Rightarrow> nat \<Rightarrow> nat \<Rightarrow> bool \<Rightarrow> error + symbol" where
  "set_module m x y v =
     (let r = y + quietZoneSize m; c = x + quietZoneSize m
      in if r < length (module m) \<and> c < length (module m ! r) \<and>
            r < length (isUsed m) \<and> c < length (isUsed m ! r)
         then Inr (m\<lparr>module := (module m)[r := (module m ! r)[c := v]],
                     isUsed := (isUsed m)[r := (isUsed m ! r)[c := True]]\<rparr>)
         else Inl Panic)"

text \<open>Sequencing of two steps that can fail.\<close>

definition bindE :: "error + 'a \<Rightarrow> ('a \<Rightarrow> error + 'b) \<Rightarrow> error + 'b" where
  "bindE r f = (case r of Inl e \<Rightarrow> Inl e | Inr x \<Rightarrow> f x)"

text \<open>
  A counting loop \<open>for i := lo; i < hi; i++\<close> whose body can fail: the body is run on
  each index in turn, and the first failure ends the loop.
\<close>

fun forE :: "nat list \<Rightarrow> (nat \<Rightarrow> 's \<Rightarrow> error + 's) \<Rightarrow> 's \<Rightarrow> error + 's" where
  "forE [] body s = Inr s"
| "forE (i # is) body s =
     (case body i s of
        Inl e \<Rightarrow> Inl e
      | Inr s' \<Rightarrow> forE is body s')"

definition numEmptyModules :: "symbol \<Rightarrow> error + int" where
  "numEmptyModules m =
     forE [0 ..< symbolSize m]
       (\<lambda>y. forE [0 ..< symbolSize m]
          (\<lambda>x count.
             case index2 (isUsed m) (y + quietZoneSize m) (x + quietZoneSize m) of
               Inl e \<Rightarrow> Inl e
             | Inr u \<Rightarrow> Inr (if \<not> u then count + 1 else count)))
       0"

definition penaltyWeight1 :: int where "penaltyWeight1 = 3"
definition penaltyWeight2 :: int where "penaltyWeight2 = 3"
definition penaltyWeight3 :: int where "penaltyWeight3 = 40"
definition penaltyWeight4 :: int where "penaltyWeight4 = 10"

text \<open>
  \<open>penalty1\<close>: the body of the inner loop on the state \<open>(lastValue, count, penalty)\<close>,
  the same for the column pass and the row pass.
\<close>

definition penalty1_step :: "bool \<Rightarrow> bool \<times> int \<times> int \<Rightarrow> bool \<times> int \<times> int" where
  "penalty1_step v st =
     (case st of (lastValue, count, penalty) \<Rightarrow>
        if v \<noteq> lastValue then (v, 1, penalty)
        else (let count1 = count + 1
              in if count1 = 6 then (lastValue, count1, penalty + (penaltyWeight1 + 1))
                 else if count1 > 6 then (lastValue, count1, penalty + 1)
                 else (lastValue, count1, penalty)))"

text \<open>One line of \<open>penalty1\<close>: \<open>rd i\<close> reads module \<open>i\<close> of the line.\<close>

definition penalty1_line :: "nat \<Rightarrow> (nat \<Rightarrow> error + bool) \<Rightarrow> int \<Rightarrow> error + int" where
  "penalty1_line n rd penalty =
     (case rd 0 of
        Inl e \<Rightarrow> Inl e
      | Inr lastValue \<Rightarrow>
         (case forE [1 ..< n]
                 (\<lambda>i st. case rd i of
                            Inl e \<Rightarrow> Inl e
                          | Inr v \<Rightarrow> Inr (penalty1_step v st))
                 (lastValue, 1, penalty) of
            Inl e \<Rightarrow> Inl e
          | Inr (lastValue', count, penalty') \<Rightarrow> Inr penalty'))"

definition penalty1 :: "symbol \<Rightarrow> error + int" where
  "penalty1 m =
     (case forE [0 ..< symbolSize m]
             (\<lambda>x. penalty1_line (symbolSize m) (\<lambda>y. get m x y)) 0 of
        Inl e \<Rightarrow> Inl e
      | Inr penalty \<Rightarrow>
          forE [0 ..< symbolSize m]
            (\<lambda>y. penalty1_line (symbolSize m) (\<lambda>x. get m x y)) penalty)"

definition penalty2 :: "symbol \<Rightarrow> error + int" where
  "penalty2 m =
     (case forE [1 ..< symbolSize m]
             (\<lambda>y. forE [1 ..< symbolSize m]
                (\<lambda>x penalty.
                   bindE (get m (x - 1) (y - 1)) (\<lambda>topLeft.
                   bindE (get m x (y - 1)) (\<lambda>aboveV.
                   bindE (get m (x - 1) y) (\<lambda>leftV.
                   bindE (get m x y) (\<lambda>current.
                     Inr (if current = leftV \<and> current = aboveV \<and> current = topLeft
                          then penalty + 1 else penalty)))))))
             0 of
        Inl e \<Rightarrow> Inl e
      | Inr penalty \<Rightarrow> Inr (penalty * penaltyWeight2))"

text \<open>\<open>penalty3\<close>: \<open>bitBuffer\<close> is an \<open>int16\<close>; the state is \<open>(bitBuffer, penalty)\<close>.\<close>

definition penalty3_step :: "nat \<Rightarrow> nat \<Rightarrow> bool \<Rightarrow> 16 word \<times> int \<Rightarrow> 16 word \<times> int" where
  "penalty3_step n i v st =
     (case st of (bitBuffer, penalty) \<Rightarrow>
        (let b1 = push_bit 1 bitBuffer;
             b2 = (if v then b1 OR 1 else b1)
         in if b2 AND 0x7ff = 0x05d \<or> b2 AND 0x7ff = 0x5d0
            then (0xFF, penalty + penaltyWeight3)
            else if int i = int n - 1 \<and> b2 AND 0x7f = 0x5d
            then (0xFF, penalty + penaltyWeight3)
            else (b2, penalty)))"

definition penalty3_line :: "nat \<Rightarrow> (nat \<Rightarrow> error + bool) \<Rightarrow> int \<Rightarrow> error + int" where
  "penalty3_line n rd penalty =
     (case forE [0 ..< n]
             (\<lambda>i st. case rd i of
                        Inl e \<Rightarrow> Inl e
                      | Inr v \<Rightarrow> Inr (penalty3_step n i v st))
             (0, penalty) of
        Inl e \<Rightarrow> Inl e
      | Inr (bitBuffer, penalty') \<Rightarrow> Inr penalty')"

definition penalty3 :: "symbol \<Rightarrow> error + int" where
  "penalty3 m =
     (case forE [0 ..< symbolSize m]
             (\<lambda>y. penalty3_line (symbolSize m) (\<lambda>x. get m x y)) 0 of
        Inl e \<Rightarrow> Inl e
      | Inr penalty \<Rightarrow>
          forE [0 ..< symbolSize m]
            (\<lambda>x. penalty3_line (symbolSize m) (\<lambda>y. get m x y)) penalty)"

text \<open>
  \<open>penalty4\<close>: Go's integer division truncates; both operands are non-negative here.
  \<open>numModules / 20\<close> is 0 for a symbol of fewer than 20 modules, and Go panics on the
  division.
\<close>

definition penalty4 :: "symbol \<Rightarrow> error + int" where
  "penalty4 m =
     (let numModules = int (symbolSize m) * int (symbolSize m)
      in case forE [0 ..< symbolSize m]
                (\<lambda>x. forE [0 ..< symbolSize m]
                   (\<lambda>y numDarkModules.
                      case get m x y of
                        Inl e \<Rightarrow> Inl e
                      | Inr v \<Rightarrow> Inr (if v then numDarkModules + 1 else numDarkModules)))
                0 of
           Inl e \<Rightarrow> Inl e
         | Inr numDarkModules \<Rightarrow>
            (let d = numModules div 2 - numDarkModules;
                 numDarkModuleDeviation = (if d < 0 then d * (-1) else d)
             in if numModules div 20 = 0 then Inl Panic
                else Inr (penaltyWeight4 * (numDarkModuleDeviation div (numModules div 20)))))"

definition penaltyScore :: "symbol \<Rightarrow> error + int" where
  "penaltyScore m =
     bindE (penalty1 m) (\<lambda>p1.
     bindE (penalty2 m) (\<lambda>p2.
     bindE (penalty3 m) (\<lambda>p3.
     bindE (penalty4 m) (\<lambda>p4. Inr (p1 + p2 + p3 + p4)))))"

text \<open>
  The invariant that \<open>newSymbol\<close> establishes and \<open>set\<close> keeps: both planes are square
  of side \<open>size\<close>, which is the symbol and two quiet zones.
\<close>

definition wf_symbol :: "symbol \<Rightarrow> bool" where
  "wf_symbol m \<longleftrightarrow>
     size_sym m = symbolSize m + 2 * quietZoneSize m \<and>
     length (module m) = size_sym m \<and> list_all (\<lambda>row. length row = size_sym m) (module m) \<and>
     length (isUsed m) = size_sym m \<and> list_all (\<lambda>row. length row = size_sym m) (isUsed m)"

text \<open>The number of dark modules of the symbol, quiet zone excluded.\<close>

definition darkAt :: "symbol \<Rightarrow> nat \<times> nat \<Rightarrow> bool" where
  "darkAt m xy = (module m ! (snd xy + quietZoneSize m) ! (fst xy + quietZoneSize m))"

definition darkModules :: "symbol \<Rightarrow> int" where
  "darkModules m =
     int (length (filter (darkAt m) (List.product [0 ..< symbolSize m] [0 ..< symbolSize m])))"

text \<open>
  P4 in the specification's words: \<open>d = |darkModules * 100 / total - 50| * 2\<close> and the
  score is \<open>w4 * floor (d / 5)\<close>.
\<close>

definition penalty4_spec :: "int \<Rightarrow> int \<Rightarrow> int" where
  "penalty4_spec darkModules' total' =
     penaltyWeight4 *
       \<lfloor>(\<bar>real_of_int darkModules' * 100 / real_of_int total' - 50\<bar> * 2) / 5\<rfloor>"

text \<open>Inverting every module value of the symbol.\<close>

definition flipAll :: "symbol \<Rightarrow> symbol" where
  "flipAll m = m\<lparr>module := map (map Not) (module m)\<rparr>"

subsection \<open>Loops that cannot fail\<close>

lemma bindE_Inr [simp]: "bindE (Inr x) f = f x"
  by (simp add: bindE_def)

lemma bindE_Inl [simp]: "bindE (Inl e) f = Inl e"
  by (simp add: bindE_def)

lemma bindE_eq_Inr: "bindE r f = Inr y \<longleftrightarrow> (\<exists>x. r = Inr x \<and> f x = Inr y)"
  by (cases r) auto

lemma forE_invariant:
  assumes "forE xs body s = Inr s'" and "P s"
    and "\<And>i t t'. P t \<Longrightarrow> body i t = Inr t' \<Longrightarrow> P t'"
  shows "P s'"
  using assms(1,2)
proof (induction xs arbitrary: s)
  case Nil
  then show ?case by simp
next
  case (Cons i xs)
  from Cons.prems(1) obtain t where t: "body i s = Inr t" "forE xs body t = Inr s'"
    by (auto split: sum.splits)
  from assms(3)[OF Cons.prems(2) t(1)] have "P t" .
  with Cons.IH t(2) show ?case by blast
qed

lemma forE_pure:
  assumes "\<And>i t. i \<in> set xs \<Longrightarrow> body i t = Inr (f i t)"
  shows "forE xs body s = Inr (fold f xs s)"
  using assms by (induction xs arbitrary: s) auto

lemma get_wf:
  assumes "wf_symbol m" "x < symbolSize m" "y < symbolSize m"
  shows "get m x y = Inr (darkAt m (x, y))"
proof -
  have r: "y + quietZoneSize m < length (module m)"
    using assms by (simp add: wf_symbol_def)
  then have "module m ! (y + quietZoneSize m) \<in> set (module m)" by simp
  then have "length (module m ! (y + quietZoneSize m)) = size_sym m"
    using assms(1) by (auto simp: wf_symbol_def list_all_iff)
  then have "x + quietZoneSize m < length (module m ! (y + quietZoneSize m))"
    using assms by (simp add: wf_symbol_def)
  with r show ?thesis by (simp add: get_def index2_def darkAt_def)
qed

subsection \<open>Counting the dark modules\<close>

lemma count_inner:
  assumes "\<And>y. y \<in> set ys \<Longrightarrow> get m x y = Inr (darkAt m (x, y))"
  shows "forE ys (\<lambda>y numDarkModules.
            case get m x y of
              Inl e \<Rightarrow> Inl e
            | Inr v \<Rightarrow> Inr (if v then numDarkModules + 1 else numDarkModules)) (c :: int)
         = Inr (c + int (length (filter (\<lambda>y. darkAt m (x, y)) ys)))"
  using assms by (induction ys arbitrary: c) auto

lemma filter_product_Cons:
  "length (filter P (List.product (x # xs) ys)) =
     length (filter (\<lambda>y. P (x, y)) ys) + length (filter P (List.product xs ys))"
  by (simp add: filter_map o_def)

lemma count_outer:
  assumes "\<And>x y. x \<in> set xs \<Longrightarrow> y \<in> set ys \<Longrightarrow> get m x y = Inr (darkAt m (x, y))"
  shows "forE xs (\<lambda>x. forE ys (\<lambda>y numDarkModules.
            case get m x y of
              Inl e \<Rightarrow> Inl e
            | Inr v \<Rightarrow> Inr (if v then numDarkModules + 1 else numDarkModules))) (c :: int)
         = Inr (c + int (length (filter (darkAt m) (List.product xs ys))))"
  using assms
proof (induction xs arbitrary: c)
  case Nil
  then show ?case by simp
next
  case (Cons x xs)
  have inner: "forE ys (\<lambda>y numDarkModules.
            case get m x y of
              Inl e \<Rightarrow> Inl e
            | Inr v \<Rightarrow> Inr (if v then numDarkModules + 1 else numDarkModules)) c
         = Inr (c + int (length (filter (\<lambda>y. darkAt m (x, y)) ys)))"
    by (rule count_inner) (simp add: Cons.prems)
  show ?case
    unfolding forE.simps inner sum.case
    by (subst Cons.IH) (auto simp: Cons.prems filter_product_Cons simp del: product.simps)
qed

lemma penalty4_count:
  assumes "wf_symbol m"
  shows "forE [0 ..< symbolSize m] (\<lambda>x. forE [0 ..< symbolSize m] (\<lambda>y numDarkModules.
            case get m x y of
              Inl e \<Rightarrow> Inl e
            | Inr v \<Rightarrow> Inr (if v then numDarkModules + 1 else numDarkModules))) 0
         = Inr (darkModules m)"
  unfolding darkModules_def
  by (subst count_outer) (auto simp: get_wf[OF assms])

lemma numModules_div_20: "5 \<le> n \<Longrightarrow> int n * int n div 20 \<noteq> 0"
proof -
  assume n: "5 \<le> n"
  then have "5 * 5 \<le> n * n" by (intro mult_le_mono)
  then have "int (5 * 5) \<le> int (n * n)" by (simp only: of_nat_le_iff)
  then have "20 \<le> int n * int n" by simp
  then have "0 < int n * int n div 20" by (simp add: pos_imp_zdiv_pos_iff)
  then show ?thesis by simp
qed

lemma penalty4_value:
  assumes "wf_symbol m" and "5 \<le> symbolSize m"
  shows "penalty4 m =
           Inr (penaltyWeight4 *
                (\<bar>int (symbolSize m) * int (symbolSize m) div 2 - darkModules m\<bar>
                 div (int (symbolSize m) * int (symbolSize m) div 20)))"
  using numModules_div_20[OF assms(2)]
  by (simp add: penalty4_def penalty4_count[OF assms(1)] Let_def abs_if)

subsection \<open>The penalty score is not negative\<close>

lemma penalty1_step_nonneg:
  "penalty1_step v (l, c, p) = (l', c', p') \<Longrightarrow> 0 \<le> p \<Longrightarrow> 0 \<le> p'"
  by (auto simp: penalty1_step_def penaltyWeight1_def Let_def split: if_splits)

lemma penalty1_line_nonneg:
  assumes "penalty1_line n rd pen = Inr pen'" "0 \<le> pen"
  shows "0 \<le> pen'"
proof -
  from assms(1) obtain lastValue st where
    f: "forE [1 ..< n]
          (\<lambda>i st. case rd i of Inl e \<Rightarrow> Inl e | Inr v \<Rightarrow> Inr (penalty1_step v st))
          (lastValue, 1, pen) = Inr st" and st: "pen' = snd (snd st)"
    by (auto simp: penalty1_line_def split: sum.splits prod.splits)
  have "0 \<le> snd (snd st)"
    by (rule forE_invariant[OF f, where P = "\<lambda>st. 0 \<le> snd (snd st)"])
       (auto simp: assms(2) split: sum.splits dest: penalty1_step_nonneg)
  with st show ?thesis by simp
qed

lemma penalty1_nonneg: "penalty1 m = Inr p \<Longrightarrow> 0 \<le> p"
proof -
  assume a: "penalty1 m = Inr p"
  then obtain p0 where
    c: "forE [0 ..< symbolSize m] (\<lambda>x. penalty1_line (symbolSize m) (\<lambda>y. get m x y)) 0 = Inr p0"
    and r: "forE [0 ..< symbolSize m] (\<lambda>y. penalty1_line (symbolSize m) (\<lambda>x. get m x y)) p0 = Inr p"
    by (auto simp: penalty1_def split: sum.splits)
  have "0 \<le> p0"
    by (rule forE_invariant[OF c, where P = "\<lambda>p. 0 \<le> p"]) (auto intro: penalty1_line_nonneg)
  then show "0 \<le> p"
    by (intro forE_invariant[OF r, where P = "\<lambda>p. 0 \<le> p"]) (auto intro: penalty1_line_nonneg)
qed

lemma penalty2_body_nonneg:
  fixes t t' :: int
  assumes "bindE a (\<lambda>topLeft. bindE b (\<lambda>aboveV. bindE c (\<lambda>leftV. bindE d (\<lambda>current.
             Inr (if current = leftV \<and> current = aboveV \<and> current = topLeft
                  then t + 1 else t))))) = Inr t'"
    and "0 \<le> t"
  shows "0 \<le> t'"
  using assms by (cases a; cases b; cases c; cases d) (auto split: if_splits)

lemma penalty2_nonneg: "penalty2 m = Inr p \<Longrightarrow> 0 \<le> p"
proof -
  assume a: "penalty2 m = Inr p"
  let ?body = "\<lambda>y::nat. forE [1 ..< symbolSize m]
                (\<lambda>x penalty.
                   bindE (get m (x - 1) (y - 1)) (\<lambda>topLeft.
                   bindE (get m x (y - 1)) (\<lambda>aboveV.
                   bindE (get m (x - 1) y) (\<lambda>leftV.
                   bindE (get m x y) (\<lambda>current.
                     Inr (if current = leftV \<and> current = aboveV \<and> current = topLeft
                          then penalty + 1 else (penalty::int)))))))"
  from a obtain p0 where c: "forE [1 ..< symbolSize m] ?body 0 = Inr p0"
    and p: "p = p0 * penaltyWeight2"
    by (auto simp: penalty2_def split: sum.splits)
  have inner: "0 \<le> t'" if "0 \<le> t" "?body y t = Inr t'" for y t t'
    by (rule forE_invariant[OF that(2), where P = "\<lambda>p. 0 \<le> p"])
       (use that(1) in \<open>auto elim: penalty2_body_nonneg\<close>)
  have "0 \<le> p0"
    by (rule forE_invariant[OF c, where P = "\<lambda>p. 0 \<le> p"]) (auto intro: inner)
  with p show "0 \<le> p" by (simp add: penaltyWeight2_def)
qed

lemma penalty3_step_nonneg:
  "penalty3_step n i v (b, p) = (b', p') \<Longrightarrow> 0 \<le> p \<Longrightarrow> 0 \<le> p'"
  by (auto simp: penalty3_step_def penaltyWeight3_def Let_def split: if_splits)

lemma penalty3_line_nonneg:
  assumes "penalty3_line n rd pen = Inr pen'" "0 \<le> pen"
  shows "0 \<le> pen'"
proof -
  from assms(1) obtain st where
    f: "forE [0 ..< n]
          (\<lambda>i st. case rd i of Inl e \<Rightarrow> Inl e | Inr v \<Rightarrow> Inr (penalty3_step n i v st))
          (0, pen) = Inr st" and st: "pen' = snd st"
    by (auto simp: penalty3_line_def split: sum.splits prod.splits)
  have "0 \<le> snd st"
    by (rule forE_invariant[OF f, where P = "\<lambda>st. 0 \<le> snd st"])
       (auto simp: assms(2) split: sum.splits dest: penalty3_step_nonneg)
  with st show ?thesis by simp
qed

lemma penalty3_nonneg: "penalty3 m = Inr p \<Longrightarrow> 0 \<le> p"
proof -
  assume a: "penalty3 m = Inr p"
  then obtain p0 where
    c: "forE [0 ..< symbolSize m] (\<lambda>y. penalty3_line (symbolSize m) (\<lambda>x. get m x y)) 0 = Inr p0"
    and r: "forE [0 ..< symbolSize m] (\<lambda>x. penalty3_line (symbolSize m) (\<lambda>y. get m x y)) p0 = Inr p"
    by (auto simp: penalty3_def split: sum.splits)
  have "0 \<le> p0"
    by (rule forE_invariant[OF c, where P = "\<lambda>p. 0 \<le> p"]) (auto intro: penalty3_line_nonneg)
  then show "0 \<le> p"
    by (intro forE_invariant[OF r, where P = "\<lambda>p. 0 \<le> p"]) (auto intro: penalty3_line_nonneg)
qed

lemma penalty4_nonneg:
  assumes "penalty4 m = Inr p"
  shows "0 \<le> p"
proof -
  let ?c = "forE [0 ..< symbolSize m]
              (\<lambda>x. forE [0 ..< symbolSize m]
                 (\<lambda>y numDarkModules.
                    case get m x y of
                      Inl e \<Rightarrow> Inl e
                    | Inr v \<Rightarrow> Inr (if v then numDarkModules + 1 else numDarkModules)))
              (0::int)"
  obtain n where n: "?c = Inr n"
    using assms by (cases ?c) (simp_all add: penalty4_def)
  define k where "k = int (symbolSize m) * int (symbolSize m) div 20"
  define d where "d = int (symbolSize m) * int (symbolSize m) div 2 - n"
  have p: "p = penaltyWeight4 * ((if d < 0 then d * (- 1) else d) div k)"
    using assms unfolding penalty4_def Let_def n sum.case k_def[symmetric] d_def[symmetric]
    by (simp split: if_splits)
  have k: "0 \<le> k" unfolding k_def by (simp add: pos_imp_zdiv_nonneg_iff)
  have "0 \<le> (if d < 0 then d * (- 1) else d) div k"
  proof (cases "k = 0")
    case True
    then show ?thesis by simp
  next
    case False
    with k have "0 < k" by linarith
    then show ?thesis by (simp add: pos_imp_zdiv_nonneg_iff)
  qed
  with p show "0 \<le> p" by (simp add: penaltyWeight4_def)
qed

lemma penaltyScore_nonneg: "penaltyScore m = Inr p \<Longrightarrow> 0 \<le> p"
proof -
  assume "penaltyScore m = Inr p"
  then obtain p1 p2 p3 p4 where "penalty1 m = Inr p1" "penalty2 m = Inr p2"
    "penalty3 m = Inr p3" "penalty4 m = Inr p4" "p = p1 + p2 + p3 + p4"
    by (auto simp: penaltyScore_def bindE_eq_Inr)
  then show "0 \<le> p"
    using penalty1_nonneg penalty2_nonneg penalty3_nonneg penalty4_nonneg by fastforce
qed

text \<open>Two symbols of version 1 size (21 by 21, no quiet zone) used as concrete inputs.\<close>

definition example_dark242 :: symbol where
  "example_dark242 =
     \<lparr>module = replicate 11 (replicate 21 True) @ [replicate 11 True @ replicate 10 False] @
               replicate 9 (replicate 21 False),
      isUsed = replicate 21 (replicate 21 True),
      size_sym = 21, symbolSize = 21, quietZoneSize = 0\<rparr>"

definition example_run5 :: symbol where
  "example_run5 =
     \<lparr>module = map (\<lambda>y. map (\<lambda>x. if y = 0 \<and> x < 5 then False else odd (x + y)) [0 ..< 21])
                   [0 ..< 21],
      isUsed = replicate 21 (replicate 21 True),
      size_sym = 21, symbolSize = 21, quietZoneSize = 0\<rparr>"

text \<open>
  The lengths of the maximal same-colour runs of a line, given the colour and length
  of the run in progress, and what \<open>penalty1\<close> adds for a finished run of length \<open>L\<close>.
\<close>

fun line_runs :: "bool \<Rightarrow> int \<Rightarrow> bool list \<Rightarrow> int list" where
  "line_runs l c [] = [c]"
| "line_runs l c (v # vs) = (if v = l then line_runs l (c + 1) vs else c # line_runs v 1 vs)"

definition run_penalty :: "int \<Rightarrow> int" where
  "run_penalty L = (if L \<ge> 6 then penaltyWeight1 + (L - 5) else 0)"

lemma penalty1_step_same:
  "penalty1_step l (l, c, p) = (l, c + 1, p + run_penalty (c + 1) - run_penalty c)"
  unfolding penalty1_step_def run_penalty_def penaltyWeight1_def Let_def
  by (simp split: if_splits)

lemma penalty1_step_other:
  "v \<noteq> l \<Longrightarrow> penalty1_step v (l, c, p) = (v, 1, p)"
  unfolding penalty1_step_def by simp

lemma penalty1_fold_runs:
  "snd (snd (fold penalty1_step vs (l, c, p))) =
     p - run_penalty c + sum_list (map run_penalty (line_runs l c vs))"
proof (induction vs arbitrary: l c p)
  case Nil
  then show ?case by simp
next
  case (Cons v vs)
  show ?case
  proof (cases "v = l")
    case True
    then show ?thesis
      using Cons.IH[of l "c + 1" "p + run_penalty (c + 1) - run_penalty c"]
      by (simp add: penalty1_step_same)
  next
    case False
    have "run_penalty 1 = 0" by (simp add: run_penalty_def)
    then show ?thesis
      using False Cons.IH[of v 1 p] by (simp add: penalty1_step_other)
  qed
qed

text \<open>
  C3. The claim asks 3 points for a run of exactly 5. In \<open>example_run5\<close> the first row
  starts with five light modules followed by a dark one, and no other row or column
  has a run longer than 2: \<open>penalty1\<close> returns 0. By \<open>penalty1_fold_runs\<close> a run of
  length \<open>L\<close> adds \<open>run_penalty L\<close>, which is \<open>3 + (L - 5)\<close> from 6 on and 0 up to 5.
\<close>

theorem penalty1_run5_contributes_nothing:
  "penalty1 example_run5 = Inr 0 \<and>
   take 6 (module example_run5 ! 0) = [False, False, False, False, False, True] \<and>
   run_penalty 5 = 0 \<and> run_penalty 6 = 4"
  by code_simp

text \<open>
  P4 without the doubling: the deviation of the dark percentage from 50 in 5-percent
  buckets, ten points for each whole bucket.
\<close>

definition penalty4_buckets :: "int \<Rightarrow> int \<Rightarrow> int" where
  "penalty4_buckets darkModules' total' =
     penaltyWeight4 *
       \<lfloor>\<bar>real_of_int darkModules' * 100 / real_of_int total' - 50\<bar> / 5\<rfloor>"

text \<open>
  \<open>penalty4\<close> measures the deviation from \<open>total div 2\<close> in buckets of \<open>total div 20\<close>
  modules, both truncated. In twentieths of a module the exact deviation is
  \<open>N = |20 * dark - 10 * total|\<close> and a bucket is \<open>total\<close> wide; the deviation lies in
  bucket \<open>k = N div total\<close> at offset \<open>N mod total\<close>. The two truncations move the
  measured deviation by at most half a module (10 twentieths) and shrink bucket \<open>k\<close>
  by \<open>k * (total mod 20)\<close> twentieths; \<open>clear_of_bucket_boundary\<close> says that the offset
  keeps that distance from both ends of the bucket.
\<close>

definition clear_of_bucket_boundary :: "int \<Rightarrow> int \<Rightarrow> bool" where
  "clear_of_bucket_boundary darkModules' total' \<longleftrightarrow>
     (let N = \<bar>20 * darkModules' - 10 * total'\<bar>;
          k = N div total';
          off = N mod total';
          r = total' mod 20
      in 10 \<le> off + k * r \<and> off + 10 + (k + 1) * r < total')"

subsection \<open>The bucket rule\<close>

lemma buckets_floor:
  fixes D T :: int
  assumes "0 < T"
  shows "\<lfloor>\<bar>real_of_int D * 100 / real_of_int T - 50\<bar> / 5\<rfloor> = \<bar>20 * D - 10 * T\<bar> div T"
proof -
  have T: "0 < real_of_int T" using assms by simp
  define y where "y = real_of_int (20 * D - 10 * T) / real_of_int T"
  have e: "real_of_int D * 100 / real_of_int T - 50 = y * 5"
    unfolding y_def using T by (simp add: field_simps)
  have "\<bar>real_of_int D * 100 / real_of_int T - 50\<bar> / 5 = \<bar>y\<bar>"
    unfolding e by (simp add: abs_mult)
  also have "\<bar>y\<bar> = real_of_int \<bar>20 * D - 10 * T\<bar> / real_of_int T"
    unfolding y_def using T by (simp only: abs_divide abs_of_pos of_int_abs)
  finally show ?thesis by (simp only: floor_divide_of_int_eq)
qed

lemma bucket_exact:
  fixes D T :: int
  assumes T: "20 \<le> T" and cl: "clear_of_bucket_boundary D T"
  shows "\<bar>T div 2 - D\<bar> div (T div 20) = \<bar>20 * D - 10 * T\<bar> div T"
proof -
  define N where "N = \<bar>20 * D - 10 * T\<bar>"
  define k where "k = N div T"
  define off where "off = N mod T"
  define r where "r = T mod 20"
  define u where "u = T div 20"
  define h where "h = T div 2"
  define a where "a = \<bar>h - D\<bar>"
  define ku where "ku = k * u"
  define kr where "kr = k * r"
  have c1: "10 \<le> off + kr" and c2: "off + 10 + (kr + r) < T"
    using cl unfolding clear_of_bucket_boundary_def Let_def N_def k_def off_def r_def kr_def
    by (simp_all add: algebra_simps)
  have Tu: "T = 20 * u + r" unfolding u_def r_def by simp
  have r: "0 \<le> r" "r < 20" unfolding r_def by simp_all
  have u: "0 < u" using T Tu r by linarith
  have Th: "2 * h \<le> T" "T \<le> 2 * h + 1" unfolding h_def by linarith+
  have N: "N = k * T + off" unfolding k_def off_def by simp
  have kT: "k * T = 20 * ku + kr" unfolding ku_def kr_def Tu by (simp add: algebra_simps)
  have near: "N - 10 \<le> 20 * a \<and> 20 * a \<le> N + 10"
  proof (cases "D \<le> h")
    case True
    then have a: "a = h - D" unfolding a_def by simp
    have "20 * D - 10 * T \<le> 0" using True Th by linarith
    then have N': "N = 10 * T - 20 * D" unfolding N_def by simp
    show ?thesis unfolding a N' using Th by auto
  next
    case False
    then have a: "a = D - h" unfolding a_def by simp
    have "0 \<le> 20 * D - 10 * T" using False Th by linarith
    then have N': "N = 20 * D - 10 * T" unfolding N_def by simp
    show ?thesis unfolding a N' using Th by auto
  qed
  have lo: "ku \<le> a" using near N kT c1 by linarith
  have hi: "a < ku + u" using near N kT c2 Tu by linarith
  have "a = u * k + (a - ku)" unfolding ku_def by (simp add: algebra_simps)
  moreover have "0 \<le> a - ku" using lo by simp
  moreover have "a - ku < u" using hi by simp
  ultimately have "a div u = k" by (rule int_div_pos_eq)
  then show ?thesis unfolding a_def u_def h_def k_def N_def .
qed

lemma numModules_ge_20: "5 \<le> n \<Longrightarrow> 20 \<le> int n * int n"
proof -
  assume n: "5 \<le> n"
  then have "5 * 5 \<le> n * n" by (intro mult_le_mono)
  then have "int (5 * 5) \<le> int (n * n)" by (simp only: of_nat_le_iff)
  then show ?thesis by simp
qed

text \<open>
  C4 (as amended). For every well-formed symbol of side at least 5 with \<open>total\<close>
  modules (quiet zone excluded) of which \<open>darkModules\<close> are dark, and whose dark count
  is clear of the bucket boundaries, \<open>penalty4\<close> returns \<open>w4 * floor (d / 5)\<close> where
  \<open>d = |darkModules * 100 / total - 50|\<close>, without the factor 2: the deviation of the
  dark percentage from 50 in 5-percent buckets, multiplied by 10. Nothing is stated
  for dark counts at a bucket boundary, where the truncated divisions of \<open>penalty4\<close>
  can shift the bucket.
\<close>

theorem penalty4_bucket_rule:
  assumes "wf_symbol m" and "5 \<le> symbolSize m"
    and "clear_of_bucket_boundary (darkModules m) (int (symbolSize m) * int (symbolSize m))"
  shows "penalty4 m =
           Inr (penalty4_buckets (darkModules m) (int (symbolSize m) * int (symbolSize m)))"
proof -
  let ?T = "int (symbolSize m) * int (symbolSize m)"
  have T: "20 \<le> ?T" using assms(2) by (rule numModules_ge_20)
  then have T0: "0 < ?T" by linarith
  have "\<bar>?T div 2 - darkModules m\<bar> div (?T div 20) = \<bar>20 * darkModules m - 10 * ?T\<bar> div ?T"
    using T assms(3) by (rule bucket_exact)
  also have "\<dots> = \<lfloor>\<bar>real_of_int (darkModules m) * 100 / real_of_int ?T - 50\<bar> / 5\<rfloor>"
    using buckets_floor[OF T0, of "darkModules m"] by (simp only:)
  finally show ?thesis
    unfolding penalty4_value[OF assms(1,2)] penalty4_buckets_def by (simp only:)
qed

lemma penalty4_all_light: "penalty4 (newSymbol 21 4) = Inr 100"
  by code_simp

lemma darkModules_all_light: "darkModules (newSymbol 21 4) = 0"
  by code_simp

lemma symbolSize_all_light: "int (symbolSize (newSymbol 21 4)) * int (symbolSize (newSymbol 21 4)) = 441"
  by code_simp

lemma penalty4_spec_0_441: "penalty4_spec 0 441 = 200"
  by (simp add: penalty4_spec_def penaltyWeight4_def)

lemma penalty4_buckets_0_441: "penalty4_buckets 0 441 = 100"
  by (simp add: penalty4_buckets_def penaltyWeight4_def)

text \<open>
  The hypotheses of C4 hold at the all-light symbol of version 1 (side 21, quiet zone
  4), where the rule gives 100.
\<close>

theorem penalty4_bucket_rule_witness:
  "wf_symbol (newSymbol 21 4) \<and> 5 \<le> symbolSize (newSymbol 21 4) \<and>
   clear_of_bucket_boundary (darkModules (newSymbol 21 4))
     (int (symbolSize (newSymbol 21 4)) * int (symbolSize (newSymbol 21 4))) \<and>
   penalty4 (newSymbol 21 4) =
     Inr (penalty4_buckets (darkModules (newSymbol 21 4))
            (int (symbolSize (newSymbol 21 4)) * int (symbolSize (newSymbol 21 4))))"
proof -
  have w: "wf_symbol (newSymbol 21 4)" by code_simp
  have s: "5 \<le> symbolSize (newSymbol 21 4)" by code_simp
  have c: "clear_of_bucket_boundary (darkModules (newSymbol 21 4))
     (int (symbolSize (newSymbol 21 4)) * int (symbolSize (newSymbol 21 4)))" by code_simp
  from penalty4_bucket_rule[OF w s c] w s c show ?thesis by (intro conjI)
qed

text \<open>
  C4 as stated fails: for the all-light symbol of side 21, \<open>d = |0 - 50| * 2 = 100\<close>
  and the stated score is \<open>10 * floor (100 / 5) = 200\<close>; \<open>penalty4\<close> returns 100, ten
  points for each of the ten 5-percent buckets.
\<close>

theorem penalty4_spec_counterexample:
  "penalty4 (newSymbol 21 4) = Inr 100 \<and>
   penalty4_spec (darkModules (newSymbol 21 4))
     (int (symbolSize (newSymbol 21 4)) * int (symbolSize (newSymbol 21 4))) = 200"
  unfolding darkModules_all_light symbolSize_all_light
  by (intro conjI penalty4_all_light penalty4_spec_0_441)

subsection \<open>Inverting the symbol\<close>

text \<open>The bucket rule itself does not change when dark and light are exchanged.\<close>

lemma penalty4_buckets_symmetric:
  assumes "T \<noteq> 0"
  shows "penalty4_buckets (T - D) T = penalty4_buckets D T"
proof -
  have T: "real_of_int T \<noteq> 0" using assms by simp
  have "real_of_int (T - D) * 100 / real_of_int T - 50 = - (real_of_int D * 100 / real_of_int T - 50)"
    using T by (simp add: field_simps)
  then have "\<bar>real_of_int (T - D) * 100 / real_of_int T - 50\<bar> = \<bar>real_of_int D * 100 / real_of_int T - 50\<bar>"
    by (simp only: abs_minus_cancel)
  then show ?thesis by (simp only: penalty4_buckets_def)
qed

lemma darkModules_dark242:
  "darkModules example_dark242 = 242 \<and> darkModules (flipAll example_dark242) = 199 \<and>
   int (symbolSize example_dark242) * int (symbolSize example_dark242) = 441 \<and>
   wf_symbol example_dark242"
  by code_simp

lemma penalty4_dark242:
  "penalty4 example_dark242 = Inr 10 \<and> penalty4 (flipAll example_dark242) = Inr 0"
  by code_simp

lemma penalty4_buckets_242_199: "penalty4_buckets 242 441 = 0 \<and> penalty4_buckets 199 441 = 0"
  by (simp add: penalty4_buckets_def penaltyWeight4_def)

text \<open>
  C5. The claim asks that \<open>penalty4\<close> of a symbol and of the symbol with every module
  inverted are equal. \<open>example_dark242\<close> has 242 dark modules of 441: \<open>penalty4\<close>
  measures the deviation 22 from \<open>441 div 2 = 220\<close> in buckets of \<open>441 div 20 = 22\<close> and
  returns 10. Inverted it has 199 dark modules, a deviation of 21, and \<open>penalty4\<close>
  returns 0. The 5-percent bucket rule gives 0 for both (54.9 and 45.1 percent dark).
\<close>

theorem penalty4_flipAll_differs:
  "penalty4 example_dark242 = Inr 10 \<and> penalty4 (flipAll example_dark242) = Inr 0 \<and>
   darkModules example_dark242 = 242 \<and> darkModules (flipAll example_dark242) = 199 \<and>
   penalty4_buckets 242 441 = 0 \<and> penalty4_buckets 199 441 = 0"
  using darkModules_dark242 penalty4_dark242 penalty4_buckets_242_199 by (intro conjI) simp_all

section \<open>qrcode.go: the QR code value\<close>

text \<open>
  Modelled from the spec: the file with \<open>RecoveryLevel\<close>, \<open>qrCodeVersion\<close> and
  \<open>chooseQRCodeVersion\<close> is not among the sources. The levels are L, M, Q and H. A
  version holds its number, its level, the ordered block groups
  \<open>(numBlocks, totalCodewords, dataCodewords)\<close> and the number of remainder bits; the
  counts are those of the static tables and are never negative.
\<close>

datatype RecoveryLevel = Low | Medium | High | Highest

record block =
  b_numBlocks :: nat
  b_numCodewords :: nat
  b_numDataCodewords :: nat

record qrCodeVersion =
  v_version :: nat
  v_level :: RecoveryLevel
  v_block :: "block list"
  v_numRemainderBits :: nat

text \<open>
  \<open>QRCode\<close>: the fields that the encoding reads and writes. The colours and the
  \<open>Base64\<close> flag are drawing options that only the renderers read. \<open>symbol\<close> is a
  pointer, \<open>None\<close> is nil.
\<close>

record QRCode =
  q_content :: "byte list"
  q_level :: RecoveryLevel
  q_versionNumber :: nat
  q_Margin :: int
  q_encoder :: dataEncoder
  q_version :: qrCodeVersion
  q_data :: Bitset
  q_symbol :: "symbol option"
  q_mask :: nat

text \<open>
  \<open>New\<close> of package \<open>qrcode\<close>. The loop over the three encoder types leaves one of
  three situations in \<open>encoder\<close>, \<open>encoded\<close>, \<open>chosenVersion\<close> and \<open>err\<close>: nothing tried
  yet, the last \<open>encode\<close> failed (only \<open>err\<close> is read afterwards), or the last \<open>encode\<close>
  succeeded with the version that \<open>chooseQRCodeVersion\<close> returned (nil is \<open>None\<close>).
  \<open>chooseQRCodeVersion\<close> is a parameter.
\<close>

datatype attempt = NotTried | Failed error | Encoded dataEncoder Bitset "qrCodeVersion option"

fun New_loop ::
  "(RecoveryLevel \<Rightarrow> dataEncoder \<Rightarrow> nat \<Rightarrow> qrCodeVersion option) \<Rightarrow> byte list \<Rightarrow> RecoveryLevel
     \<Rightarrow> dataEncoderType list \<Rightarrow> attempt \<Rightarrow> error + attempt" where
  "New_loop chooseQRCodeVersion content level [] a = Inr a"
| "New_loop chooseQRCodeVersion content level (t # ts) a =
     (case newDataEncoder t of
        Inl e \<Rightarrow> Inl e
      | Inr encoder \<Rightarrow>
         (case encode encoder content of
            Inl e \<Rightarrow> New_loop chooseQRCodeVersion content level ts (Failed e)
          | Inr (encoded, encoder') \<Rightarrow>
             (case chooseQRCodeVersion level encoder' (Len encoded) of
                Some v \<Rightarrow> Inr (Encoded encoder' encoded (Some v))
              | None \<Rightarrow> New_loop chooseQRCodeVersion content level ts (Encoded encoder' encoded None))))"

definition qrcode_New ::
  "(RecoveryLevel \<Rightarrow> dataEncoder \<Rightarrow> nat \<Rightarrow> qrCodeVersion option) \<Rightarrow> byte list \<Rightarrow> RecoveryLevel
     \<Rightarrow> error + QRCode" where
  "qrcode_New chooseQRCodeVersion content level =
     (case New_loop chooseQRCodeVersion content level
             [dataEncoderType1To9, dataEncoderType10To26, dataEncoderType27To40] NotTried of
        Inl e \<Rightarrow> Inl e
      | Inr NotTried \<Rightarrow> Inl ContentTooLong
      | Inr (Failed e) \<Rightarrow> Inl e
      | Inr (Encoded encoder encoded None) \<Rightarrow> Inl ContentTooLong
      | Inr (Encoded encoder encoded (Some chosenVersion)) \<Rightarrow>
          Inr \<lparr>q_content = content, q_level = level,
               q_versionNumber = v_version chosenVersion, q_Margin = 4,
               q_encoder = encoder, q_version = chosenVersion, q_data = encoded,
               q_symbol = None, q_mask = 0\<rparr>)"

subsection \<open>Empty content\<close>

lemma encode_empty: "encode d [] = Inl NoDataToEncode"
  by (simp add: encode_def encode_plan_def)

text \<open>
  C9. For every recovery level (and whatever \<open>chooseQRCodeVersion\<close> does), \<open>New\<close> on
  the empty content returns the error "no data to encode" and no \<open>QRCode\<close> value: each
  of the three encoders refuses the empty input, and the error of the last attempt is
  returned after the loop.
\<close>

theorem New_empty_content: "qrcode_New chooseQRCodeVersion [] level = Inl NoDataToEncode"
  by (simp add: qrcode_New_def encode_empty)

end
